theory Spec2Isabelle
  imports Main
begin

text \<open>
  The resilience and access-decision core of the paywall backend: the circuit breaker in front
  of the payment gateway, the handling of webhook events, and the paywall with its rate
  limiter and its usage counters on the cache store. Each Go function is a function of the
  state it reads and the instant at which it runs, and returns the state it leaves.
\<close>

section \<open>Time, durations and machine integers\<close>

text \<open>
  A point in time is the reading of the server clock in nanoseconds, counted from a local
  midnight; a duration is a number of nanoseconds, as Go's \<open>time.Duration\<close> (an int64).
\<close>

type_synonym time = int

definition Second :: int where
  "Second = 1000000000"

definition Minute :: int where
  "Minute = 60 * Second"

definition maxDuration :: int where
  "maxDuration = 2 ^ 63 - 1"

definition minDuration :: int where
  "minDuration = - (2 ^ 63)"

text \<open>Arithmetic on int64 wraps around: the value is read back in two's complement.\<close>

definition wrap64 :: "int \<Rightarrow> int" where
  "wrap64 x = (x + 2 ^ 63) mod 2 ^ 64 - 2 ^ 63"

text \<open>\<open>t.Sub(u)\<close>: the difference of two instants, saturated to the range of a duration.\<close>

definition Sub :: "time \<Rightarrow> time \<Rightarrow> int" where
  "Sub t u = (if t - u > maxDuration then maxDuration
              else if t - u < minDuration then minDuration else t - u)"

text \<open>\<open>time.Since(t)\<close> at the instant \<open>now\<close>.\<close>

definition Since :: "time \<Rightarrow> time \<Rightarrow> int" where
  "Since now t = Sub now t"

text \<open>The zero value \<open>time.Time{}\<close> (1 January of year 1), on a clock whose origin is 1970.\<close>

definition zeroTime :: time where
  "zeroTime = - 62135596800 * Second"


section \<open>The circuit breaker (internal/payment/service.go)\<close>

datatype State = Closed | Open | HalfOpen

record CircuitBreakerConfig =
  Enabled :: bool
  FailureThreshold :: int
  RecoveryTimeout :: int
  HalfOpenRequests :: int

text \<open>
  The breaker without its mutex: the calls are taken one at a time. \<open>failureCount\<close> is a Go
  \<open>int\<close> of 64 bits, so \<open>cb.failureCount++\<close> wraps around.
\<close>

record CircuitBreaker =
  state :: State
  failureCount :: int
  lastFailureTime :: time
  config :: CircuitBreakerConfig

definition NewCircuitBreaker :: "CircuitBreakerConfig \<Rightarrow> CircuitBreaker" where
  "NewCircuitBreaker cfg =
     \<lparr>state = Closed, failureCount = 0, lastFailureTime = zeroTime, config = cfg\<rparr>"

text \<open>
  \<open>time.Duration(cb.config.RecoveryTimeout) * time.Second\<close>: an int64 product, which wraps.
\<close>

definition recoveryDuration :: "CircuitBreaker \<Rightarrow> int" where
  "recoveryDuration cb = wrap64 (RecoveryTimeout (config cb) * Second)"

text \<open>\<open>CanExecute\<close> at the instant \<open>now\<close>: the answer and the breaker after the call.\<close>

definition CanExecute :: "CircuitBreaker \<Rightarrow> time \<Rightarrow> bool \<times> CircuitBreaker" where
  "CanExecute cb now =
     (case state cb of
        Closed \<Rightarrow> (True, cb)
      | Open \<Rightarrow>
          if Since now (lastFailureTime cb) > recoveryDuration cb
          then (True, cb\<lparr>state := HalfOpen\<rparr>)
          else (False, cb)
      | HalfOpen \<Rightarrow> (True, cb))"

definition RecordSuccess :: "CircuitBreaker \<Rightarrow> CircuitBreaker" where
  "RecordSuccess cb = cb\<lparr>failureCount := 0, state := Closed\<rparr>"

definition RecordFailure :: "CircuitBreaker \<Rightarrow> time \<Rightarrow> CircuitBreaker" where
  "RecordFailure cb now =
     (let cb1 = cb\<lparr>failureCount := wrap64 (failureCount cb + 1), lastFailureTime := now\<rparr>
      in if failureCount cb1 \<ge> FailureThreshold (config cb1)
         then cb1\<lparr>state := Open\<rparr> else cb1)"

text \<open>A run of \<open>RecordFailure\<close> calls, one per instant of the list, on a new breaker.\<close>

definition failures :: "CircuitBreakerConfig \<Rightarrow> time list \<Rightarrow> CircuitBreaker" where
  "failures cfg ts = foldl RecordFailure (NewCircuitBreaker cfg) ts"

text \<open>A run of \<open>CanExecute\<close> calls: the answers in order, and the breaker at the end.\<close>

fun canExecutes :: "CircuitBreaker \<Rightarrow> time list \<Rightarrow> bool list \<times> CircuitBreaker" where
  "canExecutes cb [] = ([], cb)"
| "canExecutes cb (t # ts) =
     (case CanExecute cb t of (ok, cb1) \<Rightarrow>
        (case canExecutes cb1 ts of (oks, cb2) \<Rightarrow> (ok # oks, cb2)))"

text \<open>Any interleaving of the three operations.\<close>

datatype breaker_call = CallCanExecute time | CallRecordSuccess | CallRecordFailure time

fun breaker_step :: "CircuitBreaker \<Rightarrow> breaker_call \<Rightarrow> CircuitBreaker" where
  "breaker_step cb (CallCanExecute t) = snd (CanExecute cb t)"
| "breaker_step cb CallRecordSuccess = RecordSuccess cb"
| "breaker_step cb (CallRecordFailure t) = RecordFailure cb t"

definition breaker_run :: "CircuitBreakerConfig \<Rightarrow> breaker_call list \<Rightarrow> CircuitBreaker" where
  "breaker_run cfg calls = foldl breaker_step (NewCircuitBreaker cfg) calls"


section \<open>Decimal strings\<close>

definition is_digit :: "char \<Rightarrow> bool" where
  "is_digit c = (48 \<le> (of_char c :: nat) \<and> (of_char c :: nat) \<le> 57)"

definition digit_val :: "char \<Rightarrow> nat" where
  "digit_val c = of_char c - 48"

definition digits_val :: "string \<Rightarrow> nat" where
  "digits_val ds = foldl (\<lambda>n c. n * 10 + digit_val c) 0 ds"

text \<open>
  Go's \<open>strconv.Atoi\<close>: an optional sign, then one decimal digit or more, and a value in
  the range of a 64-bit \<open>int\<close>; anything else is an error (\<open>None\<close>).
\<close>

definition Atoi :: "string \<Rightarrow> int option" where
  "Atoi s =
     (let neg = (s \<noteq> [] \<and> hd s = CHR ''-'');
          ds = (if s \<noteq> [] \<and> (hd s = CHR ''-'' \<or> hd s = CHR ''+'') then tl s else s)
      in if ds = [] \<or> \<not> list_all is_digit ds then None
         else let n = int (digits_val ds); v = (if neg then - n else n)
              in if - (2 ^ 63) \<le> v \<and> v < 2 ^ 63 then Some v else None)"

fun nat_digits :: "nat \<Rightarrow> string" where
  "nat_digits n =
     (if n < 10 then [char_of (48 + n)]
      else nat_digits (n div 10) @ [char_of (48 + n mod 10)])"

declare nat_digits.simps [simp del]

text \<open>The decimal rendering of an integer, as the store writes a counter.\<close>

definition Itoa :: "int \<Rightarrow> string" where
  "Itoa i = (if i < 0 then CHR ''-'' # nat_digits (nat (- i)) else nat_digits (nat i))"


section \<open>The cache store\<close>

text \<open>
  Modelled from the spec: the cache store collaborator of section 6 (a Redis server behind
  \<open>cache.RedisClient\<close>, whose methods only forward to it), with the operations \<open>get\<close>,
  \<open>setWithTTL\<close>, \<open>increment\<close> and \<open>setExpiry\<close>. A key holds a string and, optionally, the
  instant at which it disappears; a key is present at \<open>now\<close> while \<open>now\<close> is before that
  instant. The store is a single reliable instance: an operation fails only for the reason
  the store itself gives (absent key, value that is not an integer).
\<close>

record entry =
  val :: string
  expiry :: "time option"

type_synonym cache = "string \<rightharpoonup> entry"

datatype redis_error = RedisNil | NotAnInteger

definition live :: "cache \<Rightarrow> time \<Rightarrow> string \<Rightarrow> entry option" where
  "live c now key =
     (case c key of
        None \<Rightarrow> None
      | Some e \<Rightarrow>
          (case expiry e of
             None \<Rightarrow> Some e
           | Some t \<Rightarrow> if now < t then Some e else None))"

definition cache_Get :: "cache \<Rightarrow> time \<Rightarrow> string \<Rightarrow> redis_error + string" where
  "cache_Get c now key =
     (case live c now key of None \<Rightarrow> Inl RedisNil | Some e \<Rightarrow> Inr (val e))"

text \<open>
  \<open>Set\<close> with an expiration; the expiration 0 means that the key does not expire. The
  expirations of this program are whole minutes, which reach the store as they are.
\<close>

definition cache_Set :: "cache \<Rightarrow> time \<Rightarrow> string \<Rightarrow> string \<Rightarrow> int \<Rightarrow> cache" where
  "cache_Set c now key v expiration =
     c(key \<mapsto> \<lparr>val = v, expiry = (if expiration = 0 then None else Some (now + expiration))\<rparr>)"

text \<open>
  The store increments only a value in its own integer format (the decimal rendering of an
  int64, nothing else), and refuses to step over the largest int64. An absent key counts
  from 0 and is created without expiry; an existing key keeps its expiry.
\<close>

definition redis_int :: "string \<Rightarrow> int option" where
  "redis_int s =
     (case Atoi s of None \<Rightarrow> None | Some n \<Rightarrow> if Itoa n = s then Some n else None)"

definition cache_Incr :: "cache \<Rightarrow> time \<Rightarrow> string \<Rightarrow> cache \<times> (redis_error + int)" where
  "cache_Incr c now key =
     (case live c now key of
        None \<Rightarrow> (c(key \<mapsto> \<lparr>val = Itoa 1, expiry = None\<rparr>), Inr 1)
      | Some e \<Rightarrow>
          (case redis_int (val e) of
             None \<Rightarrow> (c, Inl NotAnInteger)
           | Some n \<Rightarrow>
               if n = 2 ^ 63 - 1 then (c, Inl NotAnInteger)
               else (c(key \<mapsto> e\<lparr>val := Itoa (n + 1)\<rparr>), Inr (n + 1))))"

text \<open>
  \<open>RedisClient.Expire\<close> hands the duration to the client library, which sends it as a
  whole number of seconds: a duration between 0 and one second counts as one second, any
  other is divided by a second and truncated towards zero.
\<close>

definition formatSec :: "int \<Rightarrow> int" where
  "formatSec dur =
     (if 0 < dur \<and> dur < Second then 1
      else if dur < 0 then - ((- dur) div Second) else dur div Second)"

text \<open>
  \<open>Expire\<close> on a present key answers true: with a positive number of seconds it sets the
  expiry of the key that many seconds after \<open>now\<close>, with any other number the store deletes
  the key. On an absent key it changes nothing and answers false.
\<close>

definition cache_Expire :: "cache \<Rightarrow> time \<Rightarrow> string \<Rightarrow> int \<Rightarrow> cache \<times> (redis_error + bool)" where
  "cache_Expire c now key expiration =
     (case live c now key of
        None \<Rightarrow> (c, Inr False)
      | Some e \<Rightarrow>
          if formatSec expiration \<le> 0 then (c(key := None), Inr True)
          else (c(key \<mapsto> e\<lparr>expiry := Some (now + formatSec expiration * Second)\<rparr>), Inr True))"


section \<open>The subscription lookup (internal/subscription/service.go)\<close>

record Subscription =
  UserID :: string
  PlanID :: string
  Status :: string
  EndDate :: time
  CreatedAt :: time

datatype db_error = ErrNoRows | ErrDatabase

text \<open>
  The table \<open>subscriptions\<close>: its rows when the database answers, \<open>None\<close> when the query
  fails. \<open>GetActiveSubscriptionByUserID\<close> selects the rows of the user with status
  \<open>active\<close> and an end date after \<open>NOW()\<close>, and returns the most recently created one (the
  first such row of the table when several share that date).
\<close>

type_synonym subscriptions = "Subscription list option"

definition newest :: "Subscription \<Rightarrow> Subscription list \<Rightarrow> Subscription" where
  "newest r rs = foldl (\<lambda>best x. if CreatedAt x > CreatedAt best then x else best) r rs"

definition GetActiveSubscriptionByUserID ::
  "subscriptions \<Rightarrow> time \<Rightarrow> string \<Rightarrow> db_error + Subscription" where
  "GetActiveSubscriptionByUserID db now userID =
     (case db of
        None \<Rightarrow> Inl ErrDatabase
      | Some rows \<Rightarrow>
          (case filter (\<lambda>r. UserID r = userID \<and> Status r = ''active'' \<and> EndDate r > now) rows of
             [] \<Rightarrow> Inl ErrNoRows
           | r # rs \<Rightarrow> Inr (newest r rs)))"


section \<open>The paywall service (package paywall)\<close>

text \<open>
  The service holds the cache and the subscription service; the latter is used only through
  its lookup, a function of the instant and the user. One request is handled at one instant
  \<open>now\<close>. Log lines and telemetry counters are left out.
\<close>

record Service =
  cache :: cache
  subscriptionSvc :: "time \<Rightarrow> string \<Rightarrow> db_error + Subscription"

record PaywallCheckRequest =
  check_UserID :: string
  check_ContentID :: string
  check_PlanID :: string

record PaywallCheckResponse =
  HasAccess :: bool
  check_Reason :: string
  check_ExpiresAt :: time

record PaywallEnforceRequest =
  enforce_UserID :: string
  enforce_ContentID :: string
  Action :: string

record UsageInfo =
  Current :: int
  Limit :: int
  Remaining :: int

record PaywallEnforceResponse =
  Allowed :: bool
  Reason :: string
  ExpiresAt :: time
  Usage :: UsageInfo

text \<open>
  What a handler writes with \<open>c.JSON\<close>: the status code and the body, which is
  \<open>{"error": e}\<close>, \<open>{"error": e, "reason": r}\<close> or one of the two response structures.
\<close>

datatype json_body =
    ErrorBody string
  | ErrorReasonBody string string
  | CheckBody PaywallCheckResponse
  | EnforceBody PaywallEnforceResponse

record http_response =
  code :: nat
  body :: json_body

definition StatusOK :: nat where "StatusOK = 200"
definition StatusBadRequest :: nat where "StatusBadRequest = 400"
definition StatusForbidden :: nat where "StatusForbidden = 403"
definition StatusTooManyRequests :: nat where "StatusTooManyRequests = 429"
definition StatusInternalServerError :: nat where "StatusInternalServerError = 500"

text \<open>
  \<open>checkSubscriptionAccess\<close>: access, reason, expiry and error. \<open>time.Now().After(e)\<close> is
  \<open>now > e\<close>.
\<close>

definition checkSubscriptionAccess ::
  "Service \<Rightarrow> time \<Rightarrow> string \<Rightarrow> string \<Rightarrow> bool \<times> string \<times> time \<times> db_error option" where
  "checkSubscriptionAccess s now userID planID =
     (case subscriptionSvc s now userID of
        Inl err \<Rightarrow> (False, ''No active subscription found'', zeroTime, None)
      | Inr sub \<Rightarrow>
          if Status sub \<noteq> ''active'' then (False, ''Subscription is not active'', zeroTime, None)
          else if now > EndDate sub then (False, ''Subscription has expired'', zeroTime, None)
          else if planID \<noteq> [] \<and> PlanID sub \<noteq> planID then (False, ''Plan mismatch'', zeroTime, None)
          else (True, ''Valid subscription'', EndDate sub, None))"

definition rate_limit_key :: "string \<Rightarrow> string \<Rightarrow> string" where
  "rate_limit_key userID action = ''rate_limit:'' @ userID @ '':'' @ action"

definition usage_key :: "string \<Rightarrow> string \<Rightarrow> string" where
  "usage_key userID action = ''usage:'' @ userID @ '':'' @ action"

definition checkRateLimit :: "cache \<Rightarrow> time \<Rightarrow> string \<Rightarrow> string \<Rightarrow> cache \<times> bool" where
  "checkRateLimit c now userID action =
     (let key = rate_limit_key userID action
      in case cache_Get c now key of
           Inl err \<Rightarrow> (cache_Set c now key ''1'' Minute, True)
         | Inr current \<Rightarrow>
             (case Atoi current of
                None \<Rightarrow> (cache_Set c now key ''1'' Minute, True)
              | Some count \<Rightarrow>
                  if count \<ge> 10 then (c, False)
                  else (fst (cache_Incr c now key), True)))"

text \<open>\<open>limit - count\<close> is a subtraction of Go \<open>int\<close>s.\<close>

definition checkUsageLimits ::
  "cache \<Rightarrow> time \<Rightarrow> string \<Rightarrow> string \<Rightarrow> UsageInfo \<times> redis_error option" where
  "checkUsageLimits c now userID action =
     (let key = usage_key userID action
      in case cache_Get c now key of
           Inl err \<Rightarrow> (\<lparr>Current = 0, Limit = 100, Remaining = 100\<rparr>, None)
         | Inr current \<Rightarrow>
             (case Atoi current of
                None \<Rightarrow> (\<lparr>Current = 0, Limit = 100, Remaining = 100\<rparr>, None)
              | Some count \<Rightarrow>
                  let limit = 100;
                      remaining = wrap64 (limit - count);
                      remaining = (if remaining < 0 then 0 else remaining)
                  in (\<lparr>Current = count, Limit = limit, Remaining = remaining\<rparr>, None)))"

text \<open>
  \<open>time.Date(now.Year(), now.Month(), now.Day(), 23, 59, 59, 0, now.Location())\<close>, for days
  of 86400 seconds.
\<close>

definition Day :: int where
  "Day = 86400 * Second"

definition endOfDay :: "time \<Rightarrow> time" where
  "endOfDay now = now - now mod Day + 86399 * Second"

definition incrementUsage ::
  "cache \<Rightarrow> time \<Rightarrow> string \<Rightarrow> string \<Rightarrow> cache \<times> redis_error option" where
  "incrementUsage c now userID action =
     (let key = usage_key userID action
      in case cache_Incr c now key of
           (c1, Inl err) \<Rightarrow> (c1, Some err)
         | (c1, Inr n) \<Rightarrow>
             let ttl = Sub (endOfDay now) now
             in (case cache_Expire c1 now key ttl of
                   (c2, Inl err) \<Rightarrow> (c2, Some err)
                 | (c2, Inr applied) \<Rightarrow> (c2, None)))"

text \<open>
  \<open>EnforcePaywall\<close>. The request is what \<open>ShouldBindJSON\<close> gave: its error message, or the
  bound structure.
\<close>

definition EnforcePaywall ::
  "Service \<Rightarrow> time \<Rightarrow> string + PaywallEnforceRequest \<Rightarrow> Service \<times> http_response" where
  "EnforcePaywall s now bound =
     (case bound of
        Inl err \<Rightarrow> (s, \<lparr>code = StatusBadRequest, body = ErrorBody err\<rparr>)
      | Inr req \<Rightarrow>
          (case checkRateLimit (cache s) now (enforce_UserID req) (Action req) of
             (c1, False) \<Rightarrow>
               (s\<lparr>cache := c1\<rparr>,
                \<lparr>code = StatusTooManyRequests, body = ErrorBody ''Rate limit exceeded''\<rparr>)
           | (c1, True) \<Rightarrow>
               (case checkSubscriptionAccess (s\<lparr>cache := c1\<rparr>) now (enforce_UserID req) [] of
                  (hasAccess, reason, expiresAt, Some err) \<Rightarrow>
                    (s\<lparr>cache := c1\<rparr>,
                     \<lparr>code = StatusInternalServerError, body = ErrorBody ''Internal server error''\<rparr>)
                | (hasAccess, reason, expiresAt, None) \<Rightarrow>
                    if \<not> hasAccess
                    then (s\<lparr>cache := c1\<rparr>,
                          \<lparr>code = StatusForbidden, body = ErrorReasonBody ''Access denied'' reason\<rparr>)
                    else
                      (case checkUsageLimits c1 now (enforce_UserID req) (Action req) of
                         (usage, Some err) \<Rightarrow>
                           (s\<lparr>cache := c1\<rparr>,
                            \<lparr>code = StatusInternalServerError,
                             body = ErrorBody ''Internal server error''\<rparr>)
                       | (usage, None) \<Rightarrow>
                           (case incrementUsage c1 now (enforce_UserID req) (Action req) of
                              (c2, err) \<Rightarrow>
                                (s\<lparr>cache := c2\<rparr>,
                                 \<lparr>code = StatusOK,
                                  body = EnforceBody
                                    \<lparr>Allowed = True, Reason = [], ExpiresAt = expiresAt,
                                     Usage = usage\<rparr>\<rparr>))))))"

text \<open>A run of \<open>EnforcePaywall\<close> calls, one after the other: the responses and the service.\<close>

fun enforce_run ::
  "Service \<Rightarrow> (time \<times> PaywallEnforceRequest) list \<Rightarrow> http_response list \<times> Service" where
  "enforce_run s [] = ([], s)"
| "enforce_run s ((now, req) # calls) =
     (case EnforcePaywall s now (Inr req) of (s1, r) \<Rightarrow>
        (case enforce_run s1 calls of (rs, s2) \<Rightarrow> (r # rs, s2)))"

text \<open>A run of rate-limiter calls for one subject and action: the answers and the cache.\<close>

fun allow_run :: "cache \<Rightarrow> string \<Rightarrow> string \<Rightarrow> time list \<Rightarrow> bool list \<times> cache" where
  "allow_run c userID action [] = ([], c)"
| "allow_run c userID action (now # ts) =
     (case checkRateLimit c now userID action of (c1, ok) \<Rightarrow>
        (case allow_run c1 userID action ts of (oks, c2) \<Rightarrow> (ok # oks, c2)))"

text \<open>
  \<open>CheckAccess\<close>. The JSON encoding of the cached response is a parameter: \<open>enc\<close> is
  \<open>json.Marshal\<close> on a \<open>PaywallCheckResponse\<close> (\<open>None\<close> when it fails), \<open>dec\<close> is
  \<open>json.Unmarshal\<close> into one.
\<close>

definition getCachedAccess ::
  "(string \<Rightarrow> PaywallCheckResponse option) \<Rightarrow> cache \<Rightarrow> time \<Rightarrow> string \<Rightarrow>
   PaywallCheckResponse option" where
  "getCachedAccess dec c now key =
     (case cache_Get c now key of Inl err \<Rightarrow> None | Inr data \<Rightarrow> dec data)"

definition cacheAccessResult ::
  "(PaywallCheckResponse \<Rightarrow> string option) \<Rightarrow> cache \<Rightarrow> time \<Rightarrow> string \<Rightarrow>
   PaywallCheckResponse \<Rightarrow> cache" where
  "cacheAccessResult enc c now key result =
     (case enc result of None \<Rightarrow> c | Some data \<Rightarrow> cache_Set c now key data (5 * Minute))"

definition access_key :: "PaywallCheckRequest \<Rightarrow> string" where
  "access_key req =
     ''paywall:access:'' @ check_UserID req @ '':'' @ check_ContentID req @ '':'' @ check_PlanID req"

definition CheckAccess ::
  "(PaywallCheckResponse \<Rightarrow> string option) \<Rightarrow> (string \<Rightarrow> PaywallCheckResponse option) \<Rightarrow>
   Service \<Rightarrow> time \<Rightarrow> string + PaywallCheckRequest \<Rightarrow> Service \<times> http_response" where
  "CheckAccess enc dec s now bound =
     (case bound of
        Inl err \<Rightarrow> (s, \<lparr>code = StatusBadRequest, body = ErrorBody err\<rparr>)
      | Inr req \<Rightarrow>
          (case getCachedAccess dec (cache s) now (access_key req) of
             Some cached \<Rightarrow> (s, \<lparr>code = StatusOK, body = CheckBody cached\<rparr>)
           | None \<Rightarrow>
               (case checkSubscriptionAccess s now (check_UserID req) (check_PlanID req) of
                  (hasAccess, reason, expiresAt, Some err) \<Rightarrow>
                    (s, \<lparr>code = StatusInternalServerError, body = ErrorBody ''Internal server error''\<rparr>)
                | (hasAccess, reason, expiresAt, None) \<Rightarrow>
                    (let response =
                           \<lparr>HasAccess = hasAccess, check_Reason = reason,
                            check_ExpiresAt = expiresAt\<rparr>
                     in (s\<lparr>cache := cacheAccessResult enc (cache s) now (access_key req) response\<rparr>,
                         \<lparr>code = StatusOK, body = CheckBody response\<rparr>)))))"


section \<open>Webhook events (internal/payment/service.go)\<close>

record WebhookEvent =
  ID :: string
  Type :: string
  Data :: "(string \<times> string) list"
  Created :: int
  Processed :: bool

text \<open>
  A row of the table \<open>webhook_events\<close>, keyed by its id; the payload column holds the
  event as it came. The database executes every statement it is given: a statement fails
  only for the reason the table itself gives (an id that exists already).
\<close>

record webhook_row =
  event_type :: string
  source :: string
  payload :: WebhookEvent
  processed :: bool
  processed_at :: "time option"
  created_at :: time

type_synonym webhook_events = "string \<rightharpoonup> webhook_row"

datatype sql_error = UniqueViolation

text \<open>The \<open>INSERT\<close>: the id is the primary key, the flag takes its default \<open>false\<close>.\<close>

definition storeWebhookEvent ::
  "webhook_events \<Rightarrow> time \<Rightarrow> WebhookEvent \<Rightarrow> webhook_events \<times> sql_error option" where
  "storeWebhookEvent db now event =
     (case db (ID event) of
        Some r \<Rightarrow> (db, Some UniqueViolation)
      | None \<Rightarrow>
          (db(ID event \<mapsto>
                \<lparr>event_type = Type event, source = ''stripe'', payload = event,
                 processed = False, processed_at = None, created_at = now\<rparr>),
           None))"

text \<open>The \<open>UPDATE ... WHERE id = $1\<close>: no row with that id, no change and no error.\<close>

definition markWebhookProcessed ::
  "webhook_events \<Rightarrow> time \<Rightarrow> string \<Rightarrow> webhook_events \<times> sql_error option" where
  "markWebhookProcessed db now eventID =
     (case db eventID of
        None \<Rightarrow> (db, None)
      | Some r \<Rightarrow> (db(eventID \<mapsto> r\<lparr>processed := True, processed_at := Some now\<rparr>), None))"

text \<open>The three reactions write a log line and nothing else.\<close>

definition handlePaymentSuccess :: "webhook_events \<Rightarrow> WebhookEvent \<Rightarrow> webhook_events \<times> string list" where
  "handlePaymentSuccess db event = (db, [''Processing payment success webhook: '' @ ID event])"

definition handlePaymentFailure :: "webhook_events \<Rightarrow> WebhookEvent \<Rightarrow> webhook_events \<times> string list" where
  "handlePaymentFailure db event = (db, [''Processing payment failure webhook: '' @ ID event])"

definition handleInvoicePayment :: "webhook_events \<Rightarrow> WebhookEvent \<Rightarrow> webhook_events \<times> string list" where
  "handleInvoicePayment db event = (db, [''Processing invoice payment webhook: '' @ ID event])"

text \<open>\<open>processWebhookEvent\<close>: the table afterwards and the log lines written.\<close>

definition processWebhookEvent ::
  "webhook_events \<Rightarrow> time \<Rightarrow> WebhookEvent \<Rightarrow> webhook_events \<times> string list" where
  "processWebhookEvent db now event =
     (case (if Type event = ''payment_intent.succeeded'' then handlePaymentSuccess db event
            else if Type event = ''payment_intent.payment_failed'' then handlePaymentFailure db event
            else if Type event = ''invoice.payment_succeeded'' then handleInvoicePayment db event
            else (db, [''Unhandled webhook event type: '' @ Type event])) of
        (db1, logged) \<Rightarrow> (fst (markWebhookProcessed db1 now (ID event)), logged))"

definition recognized :: "string \<Rightarrow> bool" where
  "recognized ty =
     (ty = ''payment_intent.succeeded'' \<or> ty = ''payment_intent.payment_failed''
      \<or> ty = ''invoice.payment_succeeded'')"


section \<open>Readings, expected responses and sample data\<close>

text \<open>
  The integer the store would increment a key from at \<open>now\<close>: 0 for an absent key,
  nothing for a value that is not an integer.
\<close>

definition counter :: "cache \<Rightarrow> time \<Rightarrow> string \<Rightarrow> int option" where
  "counter c now key =
     (case live c now key of None \<Rightarrow> Some 0 | Some e \<Rightarrow> redis_int (val e))"

text \<open>
  The expiry that \<open>incrementUsage\<close> at \<open>now\<close> gives the usage key, when the time left until
  23:59:59 is positive.
\<close>

definition usage_expiry :: "time \<Rightarrow> time" where
  "usage_expiry now = now + formatSec (Sub (endOfDay now) now) * Second"

text \<open>The 200 response of \<open>EnforcePaywall\<close> around a usage reading, and its 429 response.\<close>

definition allowed_response :: "time \<Rightarrow> int \<Rightarrow> http_response" where
  "allowed_response expiresAt current =
     \<lparr>code = StatusOK,
      body = EnforceBody
        \<lparr>Allowed = True, Reason = [], ExpiresAt = expiresAt,
         Usage = \<lparr>Current = current, Limit = 100,
                  Remaining = (if current \<le> 100 then 100 - current else 0)\<rparr>\<rparr>\<rparr>"

definition rate_limited_response :: http_response where
  "rate_limited_response =
     \<lparr>code = StatusTooManyRequests, body = ErrorBody ''Rate limit exceeded''\<rparr>"

text \<open>The invariant of the breaker: it is away from \<open>Closed\<close> only with enough failures.\<close>

definition breaker_inv :: "CircuitBreaker \<Rightarrow> bool" where
  "breaker_inv cb =
     (state cb = Open \<or> state cb = HalfOpen \<longrightarrow> FailureThreshold (config cb) \<le> failureCount cb)"

text \<open>The defaults of \<open>setDefaults\<close> for the breaker.\<close>

definition default_config :: CircuitBreakerConfig where
  "default_config =
     \<lparr>Enabled = True, FailureThreshold = 5, RecoveryTimeout = 60, HalfOpenRequests = 3\<rparr>"

text \<open>A threshold of 0, and a run of \<open>2 ^ 63\<close> failures.\<close>

definition zero_threshold :: CircuitBreakerConfig where
  "zero_threshold =
     \<lparr>Enabled = True, FailureThreshold = 0, RecoveryTimeout = 60, HalfOpenRequests = 3\<rparr>"

definition many_failures :: "breaker_call list" where
  "many_failures = replicate 9223372036854775808 (CallRecordFailure 0)"

definition five_failures :: "time list" where
  "five_failures = [1 * Second, 2 * Second, 3 * Second, 4 * Second, 5 * Second]"

definition half_open_calls :: "breaker_call list" where
  "half_open_calls =
     [CallRecordFailure (1 * Second), CallRecordFailure (2 * Second), CallCanExecute (3 * Second),
      CallRecordFailure (3 * Second), CallRecordFailure (4 * Second), CallRecordFailure (5 * Second),
      CallCanExecute (70 * Second)]"

text \<open>
  Subject \<open>u1\<close> with an active subscription to plan \<open>p1\<close> that ends ten minutes after
  midnight, an empty cache, and the request to view \<open>article-42\<close>.
\<close>

definition demo_sub :: Subscription where
  "demo_sub =
     \<lparr>UserID = ''u1'', PlanID = ''p1'', Status = ''active'', EndDate = 10 * Minute, CreatedAt = 0\<rparr>"

definition demo_service :: Service where
  "demo_service =
     \<lparr>cache = Map.empty, subscriptionSvc = GetActiveSubscriptionByUserID (Some [demo_sub])\<rparr>"

definition demo_req :: PaywallEnforceRequest where
  "demo_req = \<lparr>enforce_UserID = ''u1'', enforce_ContentID = ''article-42'', Action = ''view''\<rparr>"


definition nine_more :: "time list" where
  "nine_more = [1 * Second, 2 * Second, 3 * Second, 4 * Second, 5 * Second, 6 * Second,
                7 * Second, 8 * Second, 9 * Second]"

text \<open>
  The same subject with a subscription that lasts the whole first day, and calls one minute
  apart from midnight on: each call opens a new rate-limit window. \<open>spaced_state k\<close> is the
  service after \<open>k\<close> such calls.
\<close>

definition long_sub :: Subscription where
  "long_sub =
     \<lparr>UserID = ''u1'', PlanID = ''p1'', Status = ''active'', EndDate = Day, CreatedAt = 0\<rparr>"

definition long_service :: Service where
  "long_service =
     \<lparr>cache = Map.empty, subscriptionSvc = GetActiveSubscriptionByUserID (Some [long_sub])\<rparr>"



text \<open>
  A usage counter that exists without expiry; a subject without subscription; a rate-limit
  window already used up; a database that does not answer; a request to \<open>CheckAccess\<close>; a
  webhook event of a type that \<open>processWebhookEvent\<close> does not know.
\<close>

definition persistent_usage :: cache where
  "persistent_usage = [usage_key ''u1'' ''view'' \<mapsto> \<lparr>val = ''3'', expiry = None\<rparr>]"

definition no_sub_service :: Service where
  "no_sub_service = \<lparr>cache = Map.empty, subscriptionSvc = GetActiveSubscriptionByUserID (Some [])\<rparr>"

definition full_window_service :: Service where
  "full_window_service =
     \<lparr>cache = [rate_limit_key ''u1'' ''view'' \<mapsto> \<lparr>val = ''10'', expiry = Some Minute\<rparr>],
      subscriptionSvc = GetActiveSubscriptionByUserID (Some [demo_sub])\<rparr>"

definition outage_service :: Service where
  "outage_service = \<lparr>cache = Map.empty, subscriptionSvc = GetActiveSubscriptionByUserID None\<rparr>"

definition demo_check :: PaywallCheckRequest where
  "demo_check = \<lparr>check_UserID = ''u1'', check_ContentID = ''article-42'', check_PlanID = ''p1''\<rparr>"

definition unknown_event :: WebhookEvent where
  "unknown_event =
     \<lparr>ID = ''evt_1'', Type = ''customer.created'', Data = [], Created = 0, Processed = False\<rparr>"


section \<open>Properties of the circuit breaker\<close>

lemma wrap64_id: "- (2 ^ 63) \<le> x \<Longrightarrow> x < 2 ^ 63 \<Longrightarrow> wrap64 x = x"
  by (simp add: wrap64_def)

lemma wrap64_succ: "wrap64 (wrap64 x + 1) = wrap64 (x + 1)"
proof -
  have "wrap64 x + 1 + 2 ^ 63 = (x + 2 ^ 63) mod 2 ^ 64 + 1"
    by (simp add: wrap64_def)
  then have "(wrap64 x + 1 + 2 ^ 63) mod 2 ^ 64 = ((x + 2 ^ 63) mod 2 ^ 64 + 1) mod 2 ^ 64"
    by (rule arg_cong)
  also have "\<dots> = (x + 2 ^ 63 + 1) mod 2 ^ 64"
    by (rule mod_add_left_eq)
  also have "x + 2 ^ 63 + 1 = x + 1 + 2 ^ 63"
    by simp
  finally show ?thesis
    unfolding wrap64_def [of "wrap64 x + 1"] wrap64_def [of "x + 1"] by (rule arg_cong)
qed

lemma wrap64_int_Suc: "wrap64 (wrap64 (int k) + 1) = wrap64 (int (Suc k))"
proof -
  have "int (Suc k) = int k + 1"
    by simp
  then show ?thesis
    by (simp only: wrap64_succ)
qed

lemma Since_gt_iff:
  assumes "0 \<le> d" "d < maxDuration"
  shows "Since now t > d \<longleftrightarrow> now - t > d"
  using assms by (auto simp: Since_def Sub_def maxDuration_def minDuration_def)

lemma recoveryDuration_exact:
  assumes "0 \<le> RecoveryTimeout (config cb)" "RecoveryTimeout (config cb) * Second \<le> maxDuration"
  shows "recoveryDuration cb = RecoveryTimeout (config cb) * Second"
proof -
  have "0 \<le> RecoveryTimeout (config cb) * Second"
    using assms(1) by (simp add: Second_def)
  moreover have "RecoveryTimeout (config cb) * Second < 2 ^ 63"
    using assms(2) by (simp add: maxDuration_def)
  ultimately show ?thesis
    unfolding recoveryDuration_def by (intro wrap64_id) auto
qed

lemma Second_not_maxDuration: "r * Second \<noteq> maxDuration"
proof
  assume "r * Second = maxDuration"
  then have "(r * Second) mod 2 = maxDuration mod 2" by simp
  then show False by (simp add: Second_def maxDuration_def)
qed

lemma CanExecute_Open:
  assumes "state cb = Open" "0 \<le> RecoveryTimeout (config cb)"
    "RecoveryTimeout (config cb) * Second \<le> maxDuration"
  shows "CanExecute cb now =
     (if now > lastFailureTime cb + RecoveryTimeout (config cb) * Second
      then (True, cb\<lparr>state := HalfOpen\<rparr>) else (False, cb))"
proof -
  let ?d = "RecoveryTimeout (config cb) * Second"
  have d0: "0 \<le> ?d" using assms(2) by (simp add: Second_def)
  have dlt: "?d < maxDuration"
    using assms(3) Second_not_maxDuration [of "RecoveryTimeout (config cb)"] by linarith
  have "Since now (lastFailureTime cb) > ?d \<longleftrightarrow> now - lastFailureTime cb > ?d"
    by (rule Since_gt_iff [OF d0 dlt])
  then show ?thesis
    using assms by (auto simp: CanExecute_def recoveryDuration_exact)
qed

lemma RecordFailure_fields:
  "failureCount (RecordFailure cb t) = wrap64 (failureCount cb + 1)"
  "lastFailureTime (RecordFailure cb t) = t"
  "config (RecordFailure cb t) = config cb"
  by (simp_all add: RecordFailure_def Let_def)

lemma RecordFailure_state:
  "state (RecordFailure cb t) =
     (if FailureThreshold (config cb) \<le> wrap64 (failureCount cb + 1) then Open else state cb)"
  by (simp add: RecordFailure_def Let_def)

lemma canExecutes_closed_window:
  assumes "state cb = Open" "0 \<le> RecoveryTimeout (config cb)"
    "RecoveryTimeout (config cb) * Second \<le> maxDuration"
    "\<forall>t \<in> set ts. t \<le> lastFailureTime cb + RecoveryTimeout (config cb) * Second"
  shows "canExecutes cb ts = (replicate (length ts) False, cb)"
  using assms(4)
proof (induction ts)
  case Nil
  show ?case by simp
next
  case (Cons t ts)
  have "CanExecute cb t = (False, cb)"
    using Cons.prems CanExecute_Open [OF assms(1-3), of t] by simp
  with Cons show ?case by simp
qed

lemma canExecutes_append:
  "canExecutes cb (ts @ us) =
     (case canExecutes cb ts of (oks, cb1) \<Rightarrow>
        (case canExecutes cb1 us of (oks2, cb2) \<Rightarrow> (oks @ oks2, cb2)))"
  by (induction ts arbitrary: cb) (auto split: prod.splits)

text \<open>
  Claim C2, as stated, fails at the instant \<open>T + recoveryTimeoutSeconds\<close> itself: the
  breaker opened by the fifth failure at second 5, with a recovery timeout of 60 seconds, still
  refuses at second 65 and stays \<open>Open\<close>.
\<close>

theorem C2_exact_timeout_counterexample:
  "state (failures default_config five_failures) = Open \<and>
   lastFailureTime (failures default_config five_failures) = 5 * Second \<and>
   CanExecute (failures default_config five_failures)
       (5 * Second + RecoveryTimeout default_config * Second) =
     (False, failures default_config five_failures)"
  by (simp add: failures_def five_failures_def default_config_def NewCircuitBreaker_def
      RecordFailure_def Let_def CanExecute_def Since_def Sub_def recoveryDuration_def wrap64_def
      Second_def maxDuration_def minDuration_def)

text \<open>
  Claim C2, amended: when a \<open>RecordFailure\<close> at time \<open>T\<close> leaves the breaker \<open>Open\<close>, every
  \<open>CanExecute\<close> call at a time up to and including \<open>T + recoveryTimeoutSeconds\<close> returns
  false and changes nothing, and the first call strictly after that instant returns true and
  flips the state to \<open>HalfOpen\<close> (for a recovery timeout that is not negative and whose
  nanoseconds fit a duration).
\<close>

theorem C2_recovery_after_timeout:
  assumes "cb = RecordFailure cb0 T" and "state cb = Open"
    and "0 \<le> RecoveryTimeout (config cb0)"
    and "RecoveryTimeout (config cb0) * Second \<le> maxDuration"
    and "\<forall>t \<in> set ts. t \<le> T + RecoveryTimeout (config cb0) * Second"
    and "T + RecoveryTimeout (config cb0) * Second < t'"
  shows "canExecutes cb (ts @ [t']) =
           (replicate (length ts) False @ [True], cb\<lparr>state := HalfOpen\<rparr>)"
proof -
  have cfg: "config cb = config cb0" and last: "lastFailureTime cb = T"
    using assms(1) by (simp_all add: RecordFailure_fields)
  have closed: "canExecutes cb ts = (replicate (length ts) False, cb)"
    using assms(2-5) by (intro canExecutes_closed_window) (simp_all add: cfg last)
  have "CanExecute cb t' = (True, cb\<lparr>state := HalfOpen\<rparr>)"
    using CanExecute_Open [of cb t'] assms(2-4,6) by (simp add: cfg last)
  with closed show ?thesis
    by (simp add: canExecutes_append)
qed

theorem C2_recovery_after_timeout_witness:
  "state (RecordFailure (failures default_config [1 * Second, 2 * Second, 3 * Second, 4 * Second])
            (5 * Second)) = Open \<and>
   canExecutes
     (RecordFailure (failures default_config [1 * Second, 2 * Second, 3 * Second, 4 * Second])
        (5 * Second))
     ([10 * Second, 65 * Second] @ [66 * Second]) =
     ([False, False, True],
      (RecordFailure (failures default_config [1 * Second, 2 * Second, 3 * Second, 4 * Second])
         (5 * Second))\<lparr>state := HalfOpen\<rparr>)"
proof -
  let ?cb0 = "failures default_config [1 * Second, 2 * Second, 3 * Second, 4 * Second]"
  have cfg: "config ?cb0 = default_config"
    by (simp add: failures_def NewCircuitBreaker_def RecordFailure_def Let_def default_config_def
        wrap64_def)
  have opened: "state (RecordFailure ?cb0 (5 * Second)) = Open"
    by (simp add: failures_def NewCircuitBreaker_def RecordFailure_def Let_def default_config_def
        wrap64_def)
  have timeout: "0 \<le> RecoveryTimeout (config ?cb0)"
    "RecoveryTimeout (config ?cb0) * Second \<le> maxDuration"
    unfolding cfg by (simp_all add: default_config_def Second_def maxDuration_def)
  have early: "\<forall>t \<in> set [10 * Second, 65 * Second].
      t \<le> 5 * Second + RecoveryTimeout (config ?cb0) * Second"
    unfolding cfg by (simp add: default_config_def Second_def)
  have late: "5 * Second + RecoveryTimeout (config ?cb0) * Second < 66 * Second"
    unfolding cfg by (simp add: default_config_def Second_def)
  show ?thesis
    using C2_recovery_after_timeout [OF refl opened timeout early late] opened by simp
qed

lemma failures_snoc: "failures cfg (ts @ [t]) = RecordFailure (failures cfg ts) t"
  by (simp add: failures_def)

lemma failures_config: "config (failures cfg ts) = cfg"
  by (induction ts rule: rev_induct)
     (simp_all add: failures_snoc RecordFailure_fields, simp add: failures_def NewCircuitBreaker_def)

lemma failures_count:
  "int (length ts) < 2 ^ 63 \<Longrightarrow> failureCount (failures cfg ts) = int (length ts)"
proof (induction ts rule: rev_induct)
  case Nil
  show ?case by (simp add: failures_def NewCircuitBreaker_def)
next
  case (snoc t ts)
  then have "failureCount (failures cfg ts) = int (length ts)"
    by simp
  moreover have "wrap64 (int (length ts) + 1) = int (length ts) + 1"
    using snoc.prems by (intro wrap64_id) simp_all
  ultimately show ?case
    by (simp add: failures_snoc RecordFailure_fields)
qed

lemma failures_state:
  "int (length ts) < 2 ^ 63 \<Longrightarrow>
   state (failures cfg ts) =
     (if ts \<noteq> [] \<and> FailureThreshold cfg \<le> int (length ts) then Open else Closed)"
proof (induction ts rule: rev_induct)
  case Nil
  show ?case by (simp add: failures_def NewCircuitBreaker_def)
next
  case (snoc t ts)
  have len: "int (length ts) < 2 ^ 63"
    using snoc.prems by simp
  have cnt: "failureCount (failures cfg ts) = int (length ts)"
    by (rule failures_count [OF len])
  have w: "wrap64 (int (length ts) + 1) = int (length ts) + 1"
    using snoc.prems by (intro wrap64_id) simp_all
  show ?case
    using snoc.IH [OF len]
    by (auto simp: failures_snoc RecordFailure_state failures_config cnt w)
qed

text \<open>
  Claim C6, as stated, fails for a threshold of 0: the new breaker is \<open>Closed\<close> with a
  count of 0, which is the threshold already, and the first \<open>RecordFailure\<close> call opens it
  with a count of 1. No call is one on which the count reaches the threshold.
\<close>

theorem C6_zero_threshold_counterexample:
  "FailureThreshold zero_threshold = 0 \<and>
   failureCount (NewCircuitBreaker zero_threshold) = 0 \<and>
   state (NewCircuitBreaker zero_threshold) = Closed \<and>
   state (failures zero_threshold [1 * Second]) = Open \<and>
   failureCount (failures zero_threshold [1 * Second]) = 1"
  by (simp add: zero_threshold_def failures_def NewCircuitBreaker_def RecordFailure_def Let_def
      wrap64_def)

text \<open>
  Claim C6, amended: for a \<open>failureThreshold\<close> of 1 or more and a run of fewer than
  \<open>2^63 - 1\<close> \<open>RecordFailure\<close> calls on the initial breaker (\<open>Closed\<close>, no failure; the
  count is a Go \<open>int\<close>, which wraps around after \<open>2^63 - 1\<close>), the count is the number of
  calls, the breaker is \<open>Open\<close> exactly when the count has reached the threshold and \<open>Closed\<close>
  otherwise, and the call that moves it to \<open>Open\<close> is the one on which the count becomes
  equal to the threshold.
\<close>

theorem C6_opens_at_threshold:
  assumes "1 \<le> FailureThreshold cfg" and "int (length ts) < 2 ^ 63 - 1"
  shows "failureCount (failures cfg ts) = int (length ts) \<and>
         (state (failures cfg ts) = Open \<longleftrightarrow> FailureThreshold cfg \<le> failureCount (failures cfg ts)) \<and>
         (state (failures cfg ts) \<noteq> Open \<longrightarrow> state (failures cfg ts) = Closed) \<and>
         (state (failures cfg ts) \<noteq> Open \<and> state (failures cfg (ts @ [t])) = Open
            \<longleftrightarrow> failureCount (failures cfg (ts @ [t])) = FailureThreshold cfg)"
proof -
  have len: "int (length ts) < 2 ^ 63" "int (length (ts @ [t])) < 2 ^ 63"
    using assms(2) by simp_all
  have cnt: "failureCount (failures cfg ts) = int (length ts)"
    "failureCount (failures cfg (ts @ [t])) = int (length (ts @ [t]))"
    by (rule failures_count [OF len(1)], rule failures_count [OF len(2)])
  have st: "state (failures cfg ts) =
      (if ts \<noteq> [] \<and> FailureThreshold cfg \<le> int (length ts) then Open else Closed)"
    "state (failures cfg (ts @ [t])) =
      (if ts @ [t] \<noteq> [] \<and> FailureThreshold cfg \<le> int (length (ts @ [t])) then Open else Closed)"
    by (rule failures_state [OF len(1)], rule failures_state [OF len(2)])
  show ?thesis
    unfolding cnt st using assms(1) by auto
qed

theorem C6_opens_at_threshold_witness:
  "1 \<le> FailureThreshold default_config \<and>
   state (failures default_config [1, 2, 3, 4]) \<noteq> Open \<and>
   state (failures default_config [1, 2, 3, 4]) = Closed \<and>
   state (failures default_config ([1, 2, 3, 4] @ [5])) = Open \<and>
   failureCount (failures default_config ([1, 2, 3, 4] @ [5])) = FailureThreshold default_config"
proof -
  have thr: "1 \<le> FailureThreshold default_config"
    by (simp add: default_config_def)
  have len: "int (length [1, 2, 3, 4 :: int]) < 2 ^ 63 - 1"
    by simp
  show ?thesis
    using C6_opens_at_threshold [OF thr len, of 5]
    by (simp add: default_config_def failures_def NewCircuitBreaker_def RecordFailure_def Let_def
        wrap64_def)
qed

lemma breaker_step_config: "config (breaker_step cb call) = config cb"
  by (cases call) (auto simp: CanExecute_def RecordSuccess_def RecordFailure_fields split: State.splits)

lemma breaker_step_bounded:
  assumes "breaker_inv cb" "0 \<le> failureCount cb" "failureCount cb \<le> n" "n + 1 < 2 ^ 63"
  shows "breaker_inv (breaker_step cb call) \<and> 0 \<le> failureCount (breaker_step cb call) \<and>
         failureCount (breaker_step cb call) \<le> n + 1"
proof (cases call)
  case (CallCanExecute t)
  then show ?thesis
    using assms by (auto simp: breaker_inv_def CanExecute_def split: State.splits)
next
  case CallRecordSuccess
  then show ?thesis
    using assms by (simp add: breaker_inv_def RecordSuccess_def)
next
  case (CallRecordFailure t)
  have w: "wrap64 (failureCount cb + 1) = failureCount cb + 1"
    using assms(2-4) by (intro wrap64_id) simp_all
  show ?thesis
    using assms CallRecordFailure
    by (auto simp: breaker_inv_def RecordFailure_state RecordFailure_fields w)
qed

lemma breaker_run_snoc:
  "breaker_run cfg (calls @ [call]) = breaker_step (breaker_run cfg calls) call"
  by (simp add: breaker_run_def)

lemma breaker_run_config: "config (breaker_run cfg calls) = cfg"
  by (induction calls rule: rev_induct)
     (simp_all add: breaker_run_snoc breaker_step_config,
      simp add: breaker_run_def NewCircuitBreaker_def)

lemma breaker_run_bounded:
  "int (length calls) < 2 ^ 63 \<Longrightarrow>
   breaker_inv (breaker_run cfg calls) \<and> 0 \<le> failureCount (breaker_run cfg calls) \<and>
   failureCount (breaker_run cfg calls) \<le> int (length calls)"
proof (induction calls rule: rev_induct)
  case Nil
  show ?case by (simp add: breaker_run_def NewCircuitBreaker_def breaker_inv_def)
next
  case (snoc call calls)
  have len: "int (length calls) + 1 < 2 ^ 63"
    using snoc.prems by simp
  then have before: "breaker_inv (breaker_run cfg calls)" "0 \<le> failureCount (breaker_run cfg calls)"
    "failureCount (breaker_run cfg calls) \<le> int (length calls)"
    using snoc.IH by simp_all
  show ?case
    using breaker_step_bounded [OF before len, of call] by (simp add: breaker_run_snoc)
qed

lemma failure_run_Suc:
  "breaker_run cfg (replicate (Suc k) (CallRecordFailure t)) =
     RecordFailure (breaker_run cfg (replicate k (CallRecordFailure t))) t"
proof -
  have "replicate (Suc k) (CallRecordFailure t) = replicate k (CallRecordFailure t) @ [CallRecordFailure t]"
    by (simp add: replicate_append_same)
  then show ?thesis
    by (simp only: breaker_run_snoc breaker_step.simps)
qed

lemma failure_run_count:
  "failureCount (breaker_run cfg (replicate k (CallRecordFailure t))) = wrap64 (int k)"
proof (induction k)
  case 0
  show ?case by (simp add: breaker_run_def NewCircuitBreaker_def wrap64_def)
next
  case (Suc k)
  show ?case
    by (simp only: failure_run_Suc RecordFailure_fields Suc wrap64_int_Suc)
qed

lemma failure_run_open:
  "1 \<le> j \<Longrightarrow> j \<le> k \<Longrightarrow> FailureThreshold cfg \<le> wrap64 (int j) \<Longrightarrow>
   state (breaker_run cfg (replicate k (CallRecordFailure t))) = Open"
proof (induction k)
  case 0
  then show ?case by simp
next
  case (Suc k)
  show ?case
  proof (cases "j \<le> k")
    case True
    then have "state (breaker_run cfg (replicate k (CallRecordFailure t))) = Open"
      using Suc by simp
    then show ?thesis
      by (simp only: failure_run_Suc RecordFailure_state) simp
  next
    case False
    then have j: "j = Suc k"
      using Suc.prems by simp
    have "wrap64 (failureCount (breaker_run cfg (replicate k (CallRecordFailure t))) + 1) =
        wrap64 (int (Suc k))"
      by (simp only: failure_run_count wrap64_int_Suc)
    then show ?thesis
      using Suc.prems(3) j
      by (simp only: failure_run_Suc RecordFailure_state breaker_run_config) simp
  qed
qed

text \<open>
  Claim C10, as stated, fails once the count wraps around: with the default threshold of 5,
  after \<open>2^63\<close> \<open>RecordFailure\<close> calls the breaker is \<open>Open\<close> and its count is
  \<open>- 2^63\<close>, below the threshold.
\<close>

theorem C10_wrapped_count_counterexample:
  "1 \<le> FailureThreshold default_config \<and>
   state (breaker_run default_config many_failures) = Open \<and>
   failureCount (breaker_run default_config many_failures) = - 9223372036854775808 \<and>
   \<not> FailureThreshold default_config \<le> failureCount (breaker_run default_config many_failures)"
proof -
  have thr: "FailureThreshold default_config = 5"
    by (simp add: default_config_def)
  have "FailureThreshold default_config \<le> wrap64 (int 5)"
    by (simp add: thr wrap64_def)
  then have opened: "state (breaker_run default_config many_failures) = Open"
    unfolding many_failures_def by (intro failure_run_open [of 5]) simp_all
  have "wrap64 (int 9223372036854775808) = - 9223372036854775808"
    by (simp add: wrap64_def)
  then have cnt: "failureCount (breaker_run default_config many_failures) = - 9223372036854775808"
    unfolding many_failures_def by (simp only: failure_run_count)
  show ?thesis
    by (simp add: thr opened cnt)
qed

text \<open>
  Claim C10, amended: in every state reached from the initial breaker by a sequence of fewer
  than \<open>2^63 - 1\<close> \<open>CanExecute\<close>, \<open>RecordSuccess\<close> and \<open>RecordFailure\<close> calls, \<open>Open\<close> or
  \<open>HalfOpen\<close> implies \<open>failureCount \<ge> failureThreshold\<close>; so one \<open>RecordFailure\<close> while
  \<open>HalfOpen\<close> returns the breaker to \<open>Open\<close>, and one \<open>RecordSuccess\<close> from any such state
  returns it to \<open>Closed\<close> with \<open>failureCount = 0\<close>. (The bound \<open>failureThreshold \<ge> 1\<close> is
  not needed.)
\<close>

theorem C10_reachable_invariant:
  assumes "int (length calls) < 2 ^ 63 - 1"
  shows "(state (breaker_run cfg calls) = Open \<or> state (breaker_run cfg calls) = HalfOpen
            \<longrightarrow> FailureThreshold cfg \<le> failureCount (breaker_run cfg calls)) \<and>
         (state (breaker_run cfg calls) = HalfOpen
            \<longrightarrow> state (RecordFailure (breaker_run cfg calls) t) = Open) \<and>
         state (RecordSuccess (breaker_run cfg calls)) = Closed \<and>
         failureCount (RecordSuccess (breaker_run cfg calls)) = 0"
proof -
  have len: "int (length calls) < 2 ^ 63"
    using assms by simp
  have inv: "breaker_inv (breaker_run cfg calls)" and lo: "0 \<le> failureCount (breaker_run cfg calls)"
    and hi: "failureCount (breaker_run cfg calls) \<le> int (length calls)"
    using breaker_run_bounded [OF len, of cfg] by simp_all
  have cfg: "config (breaker_run cfg calls) = cfg"
    by (rule breaker_run_config)
  have w: "wrap64 (failureCount (breaker_run cfg calls) + 1) = failureCount (breaker_run cfg calls) + 1"
    using lo hi assms by (intro wrap64_id) simp_all
  show ?thesis
    using inv by (auto simp: breaker_inv_def cfg RecordFailure_state RecordSuccess_def w)
qed

theorem C10_reachable_invariant_witness:
  "int (length half_open_calls) < 2 ^ 63 - 1 \<and>
   state (breaker_run default_config half_open_calls) = HalfOpen \<and>
   FailureThreshold default_config \<le> failureCount (breaker_run default_config half_open_calls) \<and>
   state (RecordFailure (breaker_run default_config half_open_calls) (71 * Second)) = Open"
proof -
  have h: "state (breaker_run default_config half_open_calls) = HalfOpen"
    by (simp add: breaker_run_def half_open_calls_def default_config_def NewCircuitBreaker_def
        RecordFailure_def CanExecute_def Let_def Since_def Sub_def recoveryDuration_def
        wrap64_def Second_def maxDuration_def minDuration_def)
  have len: "int (length half_open_calls) < 2 ^ 63 - 1"
    by (simp add: half_open_calls_def)
  show ?thesis
    using h len C10_reachable_invariant [OF len, of default_config "71 * Second"] by simp
qed


section \<open>Decimal strings: reading back what was written\<close>

lemma is_digit_char_of: "d < 10 \<Longrightarrow> is_digit (char_of (48 + d :: nat))"
  by (simp add: is_digit_def)

lemma digit_val_char_of: "d < 10 \<Longrightarrow> digit_val (char_of (48 + d :: nat)) = d"
  by (simp add: digit_val_def)

lemma not_digit_sign: "\<not> is_digit CHR ''-''" "\<not> is_digit CHR ''+''"
  by (simp_all add: is_digit_def)

lemma nat_digits_nonempty: "nat_digits n \<noteq> []"
  by (subst nat_digits.simps) simp

lemma nat_digits_all_digits: "list_all is_digit (nat_digits n)"
proof (induction n rule: nat_digits.induct)
  case (1 n)
  show ?case
  proof (cases "n < 10")
    case True
    then show ?thesis by (subst nat_digits.simps) (simp add: is_digit_char_of)
  next
    case False
    then show ?thesis
      using "1.IH" by (subst nat_digits.simps) (simp add: is_digit_char_of)
  qed
qed

lemma digits_val_snoc: "digits_val (ds @ [c]) = digits_val ds * 10 + digit_val c"
  by (simp add: digits_val_def)

lemma digits_val_nat_digits: "digits_val (nat_digits n) = n"
proof (induction n rule: nat_digits.induct)
  case (1 n)
  show ?case
  proof (cases "n < 10")
    case True
    then show ?thesis
      by (subst nat_digits.simps) (simp add: digits_val_def digit_val_char_of)
  next
    case False
    then show ?thesis
      using "1.IH" by (subst nat_digits.simps) (simp add: digits_val_snoc digit_val_char_of)
  qed
qed

lemma hd_nat_digits: "is_digit (hd (nat_digits n))"
  using nat_digits_all_digits [of n] nat_digits_nonempty [of n]
  by (cases "nat_digits n") simp_all

lemma hd_nat_digits_not_sign:
  "hd (nat_digits n) \<noteq> CHR ''-''" "hd (nat_digits n) \<noteq> CHR ''+''"
  using hd_nat_digits [of n] not_digit_sign by metis+

lemma Atoi_Itoa:
  assumes "- (2 ^ 63) \<le> i" "i < 2 ^ 63"
  shows "Atoi (Itoa i) = Some i"
proof (cases "i < 0")
  case True
  then show ?thesis
    using assms
    by (simp add: Atoi_def Itoa_def Let_def nat_digits_nonempty nat_digits_all_digits
        digits_val_nat_digits)
next
  case False
  then show ?thesis
    using assms
    by (simp add: Atoi_def Itoa_def Let_def nat_digits_nonempty nat_digits_all_digits
        digits_val_nat_digits hd_nat_digits_not_sign)
qed

lemma redis_int_Itoa:
  "- (2 ^ 63) \<le> i \<Longrightarrow> i < 2 ^ 63 \<Longrightarrow> redis_int (Itoa i) = Some i"
  by (simp add: redis_int_def Atoi_Itoa)

lemma redis_int_Atoi: "redis_int s = Some n \<Longrightarrow> Atoi s = Some n"
  by (auto simp: redis_int_def split: option.splits if_splits)

lemma Atoi_range: "Atoi s = Some n \<Longrightarrow> - (2 ^ 63) \<le> n \<and> n < 2 ^ 63"
  by (auto simp: Atoi_def Let_def split: if_splits)

lemma Itoa_1: "Itoa 1 = ''1''"
  by (simp add: Itoa_def nat_digits.simps char_of_eq_iff)

section \<open>The rate limiter\<close>

lemma keys_distinct [simp]:
  "rate_limit_key u a \<noteq> usage_key u' a'" "usage_key u' a' \<noteq> rate_limit_key u a"
  by (simp_all add: rate_limit_key_def usage_key_def)

lemma Minute_pos: "0 < Minute"
  by (simp add: Minute_def Second_def)

lemma live_entry: "c k = Some \<lparr>val = v, expiry = Some E\<rparr> \<Longrightarrow> now < E \<Longrightarrow> live c now k = Some \<lparr>val = v, expiry = Some E\<rparr>"
  by (simp add: live_def)

lemma checkRateLimit_absent:
  "live c now (rate_limit_key u a) = None \<Longrightarrow>
   checkRateLimit c now u a =
     (c(rate_limit_key u a \<mapsto> \<lparr>val = ''1'', expiry = Some (now + Minute)\<rparr>), True)"
  using Minute_pos by (simp add: checkRateLimit_def cache_Get_def cache_Set_def)

lemma checkRateLimit_below:
  assumes "live c now (rate_limit_key u a) = Some e" "redis_int (val e) = Some n" "n < 10"
  shows "checkRateLimit c now u a = (c(rate_limit_key u a \<mapsto> e\<lparr>val := Itoa (n + 1)\<rparr>), True)"
  using assms redis_int_Atoi [OF assms(2)]
  by (simp add: checkRateLimit_def cache_Get_def cache_Incr_def)

lemma checkRateLimit_full:
  assumes "live c now (rate_limit_key u a) = Some e" "Atoi (val e) = Some n" "10 \<le> n"
  shows "checkRateLimit c now u a = (c, False)"
  using assms by (simp add: checkRateLimit_def cache_Get_def)

lemma checkRateLimit_other_key:
  "k \<noteq> rate_limit_key u a \<Longrightarrow> fst (checkRateLimit c now u a) k = c k"
  by (auto simp: checkRateLimit_def cache_Get_def cache_Set_def cache_Incr_def Let_def
      split: option.splits sum.splits if_splits)

lemma allow_run_window:
  assumes "c (rate_limit_key u a) = Some \<lparr>val = Itoa n, expiry = Some E\<rparr>"
    and "0 \<le> n" and "n + int (length ts) \<le> 10" and "\<forall>t \<in> set ts. t < E"
  shows "allow_run c u a ts =
           (replicate (length ts) True,
            c(rate_limit_key u a \<mapsto> \<lparr>val = Itoa (n + int (length ts)), expiry = Some E\<rparr>))"
  using assms
proof (induction ts arbitrary: c n)
  case Nil
  then show ?case by (simp add: fun_upd_idem)
next
  case (Cons t ts)
  let ?k = "rate_limit_key u a"
  let ?e = "\<lparr>val = Itoa n, expiry = Some E\<rparr>"
  let ?c1 = "c(?k \<mapsto> \<lparr>val = Itoa (n + 1), expiry = Some E\<rparr>)"
  have lv: "live c t ?k = Some ?e"
    using Cons.prems by (simp add: live_entry)
  have ri: "redis_int (val ?e) = Some n"
    using Cons.prems by (simp add: redis_int_Itoa)
  have step: "checkRateLimit c t u a = (?c1, True)"
    using checkRateLimit_below [OF lv ri] Cons.prems by simp
  have rest: "allow_run ?c1 u a ts =
      (replicate (length ts) True,
       ?c1(?k \<mapsto> \<lparr>val = Itoa (n + 1 + int (length ts)), expiry = Some E\<rparr>))"
    using Cons.prems by (intro Cons.IH) simp_all
  have fin: "?c1(?k \<mapsto> \<lparr>val = Itoa (n + 1 + int (length ts)), expiry = Some E\<rparr>) =
      c(?k \<mapsto> \<lparr>val = Itoa (n + int (length (t # ts))), expiry = Some E\<rparr>)"
    by (rule ext) (simp add: ac_simps)
  have "allow_run c u a (t # ts) =
      (True # replicate (length ts) True,
       ?c1(?k \<mapsto> \<lparr>val = Itoa (n + 1 + int (length ts)), expiry = Some E\<rparr>))"
    by (simp only: allow_run.simps step rest prod.case)
  then show ?case
    by (simp only: fin length_Cons replicate_Suc)
qed

text \<open>
  Claim C7: for a fixed subject and action with no counter at the first call, the first ten
  \<open>checkRateLimit\<close> calls within one window (the minute that starts at the first call) return
  true, the eleventh call within that window returns false and leaves the cache as it was, and
  a call made once the window has elapsed returns true again.
\<close>

theorem C7_rate_limiter_window:
  assumes "live c t0 (rate_limit_key u a) = None"
    and "length ts = 9"
    and "\<forall>t \<in> set ts. t < t0 + Minute"
    and "t11 < t0 + Minute"
    and "t0 + Minute \<le> t'"
  shows "fst (allow_run c u a (t0 # ts)) = replicate 10 True \<and>
         checkRateLimit (snd (allow_run c u a (t0 # ts))) t11 u a =
           (snd (allow_run c u a (t0 # ts)), False) \<and>
         snd (checkRateLimit (snd (allow_run c u a (t0 # ts))) t' u a) = True"
proof -
  let ?k = "rate_limit_key u a"
  let ?c1 = "c(?k \<mapsto> \<lparr>val = ''1'', expiry = Some (t0 + Minute)\<rparr>)"
  let ?c10 = "?c1(?k \<mapsto> \<lparr>val = Itoa 10, expiry = Some (t0 + Minute)\<rparr>)"
  have first: "checkRateLimit c t0 u a = (?c1, True)"
    by (rule checkRateLimit_absent [OF assms(1)])
  have "allow_run ?c1 u a ts =
      (replicate (length ts) True,
       ?c1(?k \<mapsto> \<lparr>val = Itoa (1 + int (length ts)), expiry = Some (t0 + Minute)\<rparr>))"
    using assms(2,3) by (intro allow_run_window) (simp_all add: Itoa_1)
  then have rest: "allow_run ?c1 u a ts = (replicate 9 True, ?c10)"
    using assms(2) by simp
  have run: "allow_run c u a (t0 # ts) = (replicate 10 True, ?c10)"
    using first rest by (simp add: numeral_eq_Suc)
  have lv: "live ?c10 t11 ?k = Some \<lparr>val = Itoa 10, expiry = Some (t0 + Minute)\<rparr>"
    using assms(4) by (simp add: live_def)
  have denied: "checkRateLimit ?c10 t11 u a = (?c10, False)"
    by (rule checkRateLimit_full [OF lv, of 10]) (simp_all add: Atoi_Itoa)
  have "live ?c10 t' ?k = None"
    using assms(5) by (simp add: live_def)
  then have again: "snd (checkRateLimit ?c10 t' u a) = True"
    by (simp add: checkRateLimit_absent)
  show ?thesis
    using run denied again by simp
qed

theorem C7_rate_limiter_window_witness:
  "live Map.empty 0 (rate_limit_key ''u1'' ''view'') = None \<and>
   fst (allow_run Map.empty ''u1'' ''view'' (0 # nine_more)) = replicate 10 True \<and>
   checkRateLimit (snd (allow_run Map.empty ''u1'' ''view'' (0 # nine_more))) (10 * Second)
       ''u1'' ''view'' =
     (snd (allow_run Map.empty ''u1'' ''view'' (0 # nine_more)), False) \<and>
   snd (checkRateLimit (snd (allow_run Map.empty ''u1'' ''view'' (0 # nine_more))) (0 + Minute)
       ''u1'' ''view'') = True"
proof -
  have fresh: "live Map.empty 0 (rate_limit_key ''u1'' ''view'') = None"
    by (simp add: live_def)
  have len: "length nine_more = 9"
    by (simp add: nine_more_def)
  have inside: "\<forall>t \<in> set nine_more. t < 0 + Minute"
    by (simp add: nine_more_def Minute_def Second_def)
  have eleventh: "10 * Second < 0 + Minute"
    by (simp add: Minute_def Second_def)
  show ?thesis
    using C7_rate_limiter_window [OF fresh len inside eleventh order_refl] fresh by simp
qed


section \<open>Usage accounting and one call of the paywall\<close>

lemma Day_pos: "0 < Day"
  by (simp add: Day_def Second_def)

lemma Second_pos: "0 < Second"
  by (simp add: Second_def)

lemma endOfDay_ttl: "Sub (endOfDay now) now = endOfDay now - now"
proof -
  have "0 \<le> now mod Day" "now mod Day < Day"
    using Day_pos by simp_all
  then have "minDuration \<le> endOfDay now - now" "endOfDay now - now \<le> maxDuration"
    by (simp_all add: endOfDay_def Day_def Second_def minDuration_def maxDuration_def)
  then show ?thesis by (simp add: Sub_def)
qed

lemma formatSec_nonpos_iff: "formatSec dur \<le> 0 \<longleftrightarrow> dur \<le> 0"
proof (cases "dur \<le> 0")
  case True
  then have "0 \<le> (- dur) div Second"
    using Second_pos by (simp add: pos_imp_zdiv_nonneg_iff)
  then show ?thesis
    using True by (auto simp: formatSec_def)
next
  case False
  have "Second \<le> dur \<Longrightarrow> 1 \<le> dur div Second"
    using zdiv_mono1 [of Second dur Second] Second_pos by simp
  then show ?thesis
    using False by (auto simp: formatSec_def)
qed

lemma formatSec_large: "Second \<le> dur \<Longrightarrow> formatSec dur = dur div Second"
  using Second_pos by (simp add: formatSec_def)

lemma formatSec_small: "0 < dur \<Longrightarrow> dur < Second \<Longrightarrow> formatSec dur = 1"
  by (simp add: formatSec_def)

lemma formatSec_whole:
  assumes "0 < k"
  shows "formatSec (k * Second) = k"
proof -
  have "Second \<le> k * Second"
    using assms Second_pos by simp
  then have "formatSec (k * Second) = k * Second div Second"
    by (rule formatSec_large)
  then show ?thesis
    using Second_pos by simp
qed

lemma formatSec_bounds:
  assumes "0 < dur"
  shows "dur - Second < formatSec dur * Second" "formatSec dur * Second < dur + Second"
    "Second \<le> dur \<Longrightarrow> formatSec dur * Second \<le> dur"
proof -
  have m: "0 \<le> dur mod Second" "dur mod Second < Second"
    using Second_pos by simp_all
  have d: "dur div Second * Second = dur - dur mod Second"
    by (simp add: algebra_simps minus_mod_eq_mult_div)
  show "dur - Second < formatSec dur * Second"
  proof (cases "dur < Second")
    case True
    then show ?thesis using assms by (simp add: formatSec_small)
  next
    case False
    then have "formatSec dur * Second = dur - dur mod Second"
      by (simp add: formatSec_large d)
    then show ?thesis using m by linarith
  qed
  show "formatSec dur * Second < dur + Second"
  proof (cases "dur < Second")
    case True
    then show ?thesis using assms by (simp add: formatSec_small)
  next
    case False
    then have "formatSec dur * Second = dur - dur mod Second"
      by (simp add: formatSec_large d)
    then show ?thesis using m Second_pos by linarith
  qed
  show "formatSec dur * Second \<le> dur" if "Second \<le> dur"
  proof -
    have "formatSec dur * Second = dur - dur mod Second"
      using that by (simp add: formatSec_large d)
    then show ?thesis using m by linarith
  qed
qed

lemma usage_expiry_bounds:
  assumes "now < endOfDay now"
  shows "now < usage_expiry now" "endOfDay now - Second < usage_expiry now"
    "usage_expiry now < endOfDay now + Second"
proof -
  have d: "0 < endOfDay now - now"
    using assms by simp
  have "0 < formatSec (endOfDay now - now)"
    using formatSec_nonpos_iff [of "endOfDay now - now"] d by linarith
  then have "0 < formatSec (endOfDay now - now) * Second"
    using Second_pos by simp
  then show "now < usage_expiry now"
    by (simp add: usage_expiry_def endOfDay_ttl)
  show "endOfDay now - Second < usage_expiry now"
    using formatSec_bounds(1) [OF d] by (simp add: usage_expiry_def endOfDay_ttl)
  show "usage_expiry now < endOfDay now + Second"
    using formatSec_bounds(2) [OF d] by (simp add: usage_expiry_def endOfDay_ttl)
qed

lemma usage_expiry_whole:
  assumes "0 \<le> j" "j < 86399"
  shows "usage_expiry (j * Second) = 86399 * Second"
proof -
  have "0 \<le> j * Second" "j * Second < Day"
    using assms by (simp_all add: Day_def Second_def)
  then have e: "endOfDay (j * Second) = 86399 * Second"
    by (simp add: endOfDay_def)
  have ttl: "endOfDay (j * Second) - j * Second = (86399 - j) * Second"
    unfolding e by (simp add: algebra_simps)
  have "formatSec ((86399 - j) * Second) = 86399 - j"
    using assms by (intro formatSec_whole) simp
  then have "usage_expiry (j * Second) = j * Second + (86399 - j) * Second"
    unfolding usage_expiry_def endOfDay_ttl ttl by simp
  then show ?thesis
    by (simp add: algebra_simps)
qed

lemma counter_absent: "live c now k = None \<Longrightarrow> counter c now k = Some 0"
  by (simp add: counter_def)

lemma counter_deleted: "counter (c(k := None)) now k = Some 0"
  by (simp add: counter_def live_def)

lemma counter_entry:
  "c k = Some \<lparr>val = Itoa n, expiry = Some E\<rparr> \<Longrightarrow> now < E \<Longrightarrow> - (2 ^ 63) \<le> n \<Longrightarrow> n < 2 ^ 63 \<Longrightarrow>
   counter c now k = Some n"
  by (simp add: counter_def live_def redis_int_Itoa)

lemma counter_cong: "c' k = c k \<Longrightarrow> counter c' now k = counter c now k"
  by (simp add: counter_def live_def)

lemma counter_range: "counter c now k = Some n \<Longrightarrow> - (2 ^ 63) \<le> n \<and> n < 2 ^ 63"
  by (auto simp: counter_def split: option.splits dest!: redis_int_Atoi Atoi_range)

lemma cache_Incr_counter:
  assumes "counter c now k = Some n" "n < 2 ^ 63 - 1"
  shows "\<exists>x. cache_Incr c now k = (c(k \<mapsto> \<lparr>val = Itoa (n + 1), expiry = x\<rparr>), Inr (n + 1)) \<and>
             (\<forall>t. x = Some t \<longrightarrow> now < t)"
proof (cases "live c now k")
  case None
  then have "cache_Incr c now k = (c(k \<mapsto> \<lparr>val = Itoa (n + 1), expiry = None\<rparr>), Inr (n + 1))"
    using assms by (simp add: cache_Incr_def counter_def)
  then show ?thesis by (intro exI [of _ None]) simp
next
  case (Some e)
  then have ri: "redis_int (val e) = Some n"
    using assms(1) by (simp add: counter_def)
  have ex: "\<forall>t. expiry e = Some t \<longrightarrow> now < t"
    using Some by (auto simp: live_def split: option.splits if_splits)
  have rec: "e\<lparr>val := Itoa (n + 1)\<rparr> = \<lparr>val = Itoa (n + 1), expiry = expiry e\<rparr>"
    by simp
  have "cache_Incr c now k = (c(k \<mapsto> \<lparr>val = Itoa (n + 1), expiry = expiry e\<rparr>), Inr (n + 1))"
    using Some ri assms(2) by (simp add: cache_Incr_def rec)
  then show ?thesis
    using ex by blast
qed

lemma incrementUsage_counter:
  assumes "counter c now (usage_key u a) = Some n" "n < 2 ^ 63 - 1"
  shows "incrementUsage c now u a =
           (if now < endOfDay now
            then c(usage_key u a \<mapsto> \<lparr>val = Itoa (n + 1), expiry = Some (usage_expiry now)\<rparr>)
            else c(usage_key u a := None),
            None)"
proof -
  let ?k = "usage_key u a"
  obtain x where incr: "cache_Incr c now ?k = (c(?k \<mapsto> \<lparr>val = Itoa (n + 1), expiry = x\<rparr>), Inr (n + 1))"
    and x: "\<forall>t. x = Some t \<longrightarrow> now < t"
    using cache_Incr_counter [OF assms] by blast
  have lv: "live (c(?k \<mapsto> \<lparr>val = Itoa (n + 1), expiry = x\<rparr>)) now ?k
              = Some \<lparr>val = Itoa (n + 1), expiry = x\<rparr>"
    using x by (cases x) (simp_all add: live_def)
  have sec: "formatSec (endOfDay now - now) \<le> 0 \<longleftrightarrow> \<not> now < endOfDay now"
    using formatSec_nonpos_iff [of "endOfDay now - now"] by linarith
  have "cache_Expire (c(?k \<mapsto> \<lparr>val = Itoa (n + 1), expiry = x\<rparr>)) now ?k (Sub (endOfDay now) now)
          = (if now < endOfDay now
             then c(?k \<mapsto> \<lparr>val = Itoa (n + 1), expiry = Some (usage_expiry now)\<rparr>)
             else c(?k := None),
             Inr True)"
    by (simp add: cache_Expire_def lv endOfDay_ttl sec usage_expiry_def)
  then show ?thesis
    by (simp add: incrementUsage_def incr)
qed

lemma checkUsageLimits_counter:
  assumes "counter c now (usage_key u a) = Some n" "0 \<le> n"
  shows "checkUsageLimits c now u a =
           (\<lparr>Current = n, Limit = 100, Remaining = (if n \<le> 100 then 100 - n else 0)\<rparr>, None)"
proof (cases "live c now (usage_key u a)")
  case None
  then show ?thesis
    using assms by (simp add: checkUsageLimits_def cache_Get_def counter_def)
next
  case (Some e)
  then have at: "Atoi (val e) = Some n"
    using assms(1) by (simp add: counter_def redis_int_Atoi)
  have "n < 2 ^ 63"
    using Atoi_range [OF at] by simp
  then have "wrap64 (100 - n) = 100 - n"
    using assms(2) by (intro wrap64_id) simp_all
  then show ?thesis
    using Some at by (simp add: checkUsageLimits_def cache_Get_def Let_def)
qed

lemma checkSubscriptionAccess_valid:
  assumes "subscriptionSvc s now u = Inr sub" "Status sub = ''active''" "now \<le> EndDate sub"
  shows "checkSubscriptionAccess s now u [] = (True, ''Valid subscription'', EndDate sub, None)"
  using assms by (simp add: checkSubscriptionAccess_def)

lemma checkSubscriptionAccess_cache [simp]:
  "checkSubscriptionAccess (s\<lparr>cache := c\<rparr>) now u p = checkSubscriptionAccess s now u p"
  by (simp add: checkSubscriptionAccess_def)

lemma EnforcePaywall_rate_limited:
  assumes "checkRateLimit (cache s) now (enforce_UserID req) (Action req) = (c1, False)"
  shows "EnforcePaywall s now (Inr req) = (s\<lparr>cache := c1\<rparr>, rate_limited_response)"
  using assms by (simp add: EnforcePaywall_def rate_limited_response_def)

lemma EnforcePaywall_allowed:
  assumes rate: "checkRateLimit (cache s) now (enforce_UserID req) (Action req) = (c1, True)"
    and sub: "subscriptionSvc s now (enforce_UserID req) = Inr sub" "Status sub = ''active''"
      "now \<le> EndDate sub"
    and usage: "counter (cache s) now (usage_key (enforce_UserID req) (Action req)) = Some n"
      "0 \<le> n" "n < 2 ^ 63 - 1"
  shows "EnforcePaywall s now (Inr req) =
           (s\<lparr>cache :=
                if now < endOfDay now
                then c1(usage_key (enforce_UserID req) (Action req) \<mapsto>
                          \<lparr>val = Itoa (n + 1), expiry = Some (usage_expiry now)\<rparr>)
                else c1(usage_key (enforce_UserID req) (Action req) := None)\<rparr>,
            allowed_response (EndDate sub) n)"
proof -
  let ?u = "enforce_UserID req" and ?a = "Action req"
  have "fst (checkRateLimit (cache s) now ?u ?a) (usage_key ?u ?a) = cache s (usage_key ?u ?a)"
    by (rule checkRateLimit_other_key) simp
  then have same: "c1 (usage_key ?u ?a) = cache s (usage_key ?u ?a)"
    by (simp add: rate)
  have cnt: "counter c1 now (usage_key ?u ?a) = Some n"
    using usage(1) counter_cong [of c1 "usage_key ?u ?a" "cache s" now] same by simp
  have chk: "checkUsageLimits c1 now ?u ?a =
      (\<lparr>Current = n, Limit = 100, Remaining = (if n \<le> 100 then 100 - n else 0)\<rparr>, None)"
    by (rule checkUsageLimits_counter [OF cnt usage(2)])
  have inc: "incrementUsage c1 now ?u ?a =
      (if now < endOfDay now
       then c1(usage_key ?u ?a \<mapsto> \<lparr>val = Itoa (n + 1), expiry = Some (usage_expiry now)\<rparr>)
       else c1(usage_key ?u ?a := None),
       None)"
    by (rule incrementUsage_counter [OF cnt usage(3)])
  have acc: "checkSubscriptionAccess (s\<lparr>cache := c1\<rparr>) now ?u [] =
      (True, ''Valid subscription'', EndDate sub, None)"
    using checkSubscriptionAccess_valid [OF sub] by simp
  show ?thesis
    unfolding EnforcePaywall_def allowed_response_def
    by (simp add: rate acc chk inc del: checkSubscriptionAccess_cache)
qed


section \<open>Runs of the paywall\<close>

lemma enforce_run_window:
  assumes rate: "c (rate_limit_key (enforce_UserID req) (Action req)) =
                   Some \<lparr>val = Itoa r, expiry = Some E\<rparr>"
      "0 \<le> r" "r + int (length ts) \<le> 10"
    and usage: "c (usage_key (enforce_UserID req) (Action req)) =
                   Some \<lparr>val = Itoa m, expiry = Some X\<rparr>"
      "0 \<le> m" "m + int (length ts) < 2 ^ 63" "D - Second < X"
    and times: "\<forall>t \<in> set ts. t < E \<and> t + Second \<le> D \<and> endOfDay t = D"
    and sub: "\<forall>t \<in> set ts. f t (enforce_UserID req) = Inr sub \<and> t \<le> EndDate sub"
      "Status sub = ''active''"
  shows "\<exists>X'. D - Second < X' \<and>
           enforce_run \<lparr>cache = c, subscriptionSvc = f\<rparr> (map (\<lambda>t. (t, req)) ts) =
             (map (\<lambda>i. allowed_response (EndDate sub) (m + int i)) [0..<length ts],
              \<lparr>cache = c
                   (rate_limit_key (enforce_UserID req) (Action req) \<mapsto>
                      \<lparr>val = Itoa (r + int (length ts)), expiry = Some E\<rparr>,
                    usage_key (enforce_UserID req) (Action req) \<mapsto>
                      \<lparr>val = Itoa (m + int (length ts)), expiry = Some X'\<rparr>),
               subscriptionSvc = f\<rparr>)"
  using rate usage times sub(1)
proof (induction ts arbitrary: c r m X)
  case Nil
  have "c(rate_limit_key (enforce_UserID req) (Action req) \<mapsto> \<lparr>val = Itoa r, expiry = Some E\<rparr>,
          usage_key (enforce_UserID req) (Action req) \<mapsto> \<lparr>val = Itoa m, expiry = Some X\<rparr>) = c"
    using Nil.prems(1,4) by (intro ext) simp
  then have "enforce_run \<lparr>cache = c, subscriptionSvc = f\<rparr> (map (\<lambda>t. (t, req)) []) =
      (map (\<lambda>i. allowed_response (EndDate sub) (m + int i)) [0..<length ([] :: time list)],
       \<lparr>cache = c(rate_limit_key (enforce_UserID req) (Action req) \<mapsto>
                   \<lparr>val = Itoa (r + int (length ([] :: time list))), expiry = Some E\<rparr>,
                 usage_key (enforce_UserID req) (Action req) \<mapsto>
                   \<lparr>val = Itoa (m + int (length ([] :: time list))), expiry = Some X\<rparr>),
        subscriptionSvc = f\<rparr>)"
    by simp
  with Nil.prems(7) show ?case
    by blast
next
  case (Cons t ts)
  let ?u = "enforce_UserID req" and ?a = "Action req"
  let ?rk = "rate_limit_key ?u ?a" and ?uk = "usage_key ?u ?a"
  let ?s = "\<lparr>cache = c, subscriptionSvc = f\<rparr>"
  let ?c1 = "c(?rk \<mapsto> \<lparr>val = Itoa (r + 1), expiry = Some E\<rparr>)"
  let ?c2 = "?c1(?uk \<mapsto> \<lparr>val = Itoa (m + 1), expiry = Some (usage_expiry t)\<rparr>)"
  have t: "t < E" "t + Second \<le> D" "endOfDay t = D"
    using Cons.prems(8) by simp_all
  have early: "t < endOfDay t" "t < X"
    using t(2,3) Cons.prems(7) Second_pos by simp_all
  have next_expiry: "D - Second < usage_expiry t"
    using usage_expiry_bounds(2) [OF early(1)] t(3) by simp
  have lv: "live (cache ?s) t ?rk = Some \<lparr>val = Itoa r, expiry = Some E\<rparr>"
    using Cons.prems(1) t(1) by (simp add: live_entry)
  have ri: "redis_int (val \<lparr>val = Itoa r, expiry = Some E\<rparr>) = Some r"
    using Cons.prems(2,3) by (simp add: redis_int_Itoa)
  have rl: "checkRateLimit (cache ?s) t ?u ?a = (?c1, True)"
    using checkRateLimit_below [OF lv ri] Cons.prems(3) by simp
  have cnt: "counter (cache ?s) t ?uk = Some m"
    using Cons.prems(4,5,6) early(2) by (intro counter_entry [where E = X]) simp_all
  have subt: "subscriptionSvc ?s t ?u = Inr sub" "t \<le> EndDate sub"
    using Cons.prems(9) by simp_all
  have step: "EnforcePaywall ?s t (Inr req) =
      (\<lparr>cache = ?c2, subscriptionSvc = f\<rparr>, allowed_response (EndDate sub) m)"
    using EnforcePaywall_allowed [OF rl subt(1) sub(2) subt(2) cnt] Cons.prems(5,6) early(1)
    by simp
  have "\<exists>X'. D - Second < X' \<and>
      enforce_run \<lparr>cache = ?c2, subscriptionSvc = f\<rparr> (map (\<lambda>t. (t, req)) ts) =
      (map (\<lambda>i. allowed_response (EndDate sub) (m + 1 + int i)) [0..<length ts],
       \<lparr>cache = ?c2
              (?rk \<mapsto> \<lparr>val = Itoa (r + 1 + int (length ts)), expiry = Some E\<rparr>,
               ?uk \<mapsto> \<lparr>val = Itoa (m + 1 + int (length ts)), expiry = Some X'\<rparr>),
        subscriptionSvc = f\<rparr>)"
    using Cons.prems next_expiry by (intro Cons.IH [where X = "usage_expiry t"]) simp_all
  then obtain X' where X': "D - Second < X'"
    and rest: "enforce_run \<lparr>cache = ?c2, subscriptionSvc = f\<rparr> (map (\<lambda>t. (t, req)) ts) =
      (map (\<lambda>i. allowed_response (EndDate sub) (m + 1 + int i)) [0..<length ts],
       \<lparr>cache = ?c2
              (?rk \<mapsto> \<lparr>val = Itoa (r + 1 + int (length ts)), expiry = Some E\<rparr>,
               ?uk \<mapsto> \<lparr>val = Itoa (m + 1 + int (length ts)), expiry = Some X'\<rparr>),
        subscriptionSvc = f\<rparr>)"
    by blast
  have idx: "map (\<lambda>i. allowed_response (EndDate sub) (m + int i)) [0..<length (t # ts)] =
      allowed_response (EndDate sub) m #
        map (\<lambda>i. allowed_response (EndDate sub) (m + 1 + int i)) [0..<length ts]"
    by (simp add: map_upt_Suc ac_simps del: upt_Suc)
  have fin: "?c2(?rk \<mapsto> \<lparr>val = Itoa (r + 1 + int (length ts)), expiry = Some E\<rparr>,
                 ?uk \<mapsto> \<lparr>val = Itoa (m + 1 + int (length ts)), expiry = Some X'\<rparr>) =
      c(?rk \<mapsto> \<lparr>val = Itoa (r + int (length (t # ts))), expiry = Some E\<rparr>,
        ?uk \<mapsto> \<lparr>val = Itoa (m + int (length (t # ts))), expiry = Some X'\<rparr>)"
    by (rule ext) (simp add: ac_simps)
  have "enforce_run ?s (map (\<lambda>t. (t, req)) (t # ts)) =
      (allowed_response (EndDate sub) m #
         map (\<lambda>i. allowed_response (EndDate sub) (m + 1 + int i)) [0..<length ts],
       \<lparr>cache = ?c2
              (?rk \<mapsto> \<lparr>val = Itoa (r + 1 + int (length ts)), expiry = Some E\<rparr>,
               ?uk \<mapsto> \<lparr>val = Itoa (m + 1 + int (length ts)), expiry = Some X'\<rparr>),
        subscriptionSvc = f\<rparr>)"
    by (simp only: list.map enforce_run.simps step rest prod.case)
  then have "enforce_run ?s (map (\<lambda>t. (t, req)) (t # ts)) =
      (map (\<lambda>i. allowed_response (EndDate sub) (m + int i)) [0..<length (t # ts)],
       \<lparr>cache = c(?rk \<mapsto> \<lparr>val = Itoa (r + int (length (t # ts))), expiry = Some E\<rparr>,
                 ?uk \<mapsto> \<lparr>val = Itoa (m + int (length (t # ts))), expiry = Some X'\<rparr>),
        subscriptionSvc = f\<rparr>)"
    by (simp only: idx fin)
  with X' show ?case
    by blast
qed

lemma enforce_run_append:
  "enforce_run s (xs @ ys) =
     (case enforce_run s xs of (rs, s1) \<Rightarrow>
        (case enforce_run s1 ys of (rs2, s2) \<Rightarrow> (rs @ rs2, s2)))"
  by (induction xs arbitrary: s) (auto split: prod.splits)

lemma EnforcePaywall_first:
  assumes "live c t1 (rate_limit_key (enforce_UserID req) (Action req)) = None"
    and "live c t1 (usage_key (enforce_UserID req) (Action req)) = None"
    and "f t1 (enforce_UserID req) = Inr sub" "Status sub = ''active''" "t1 \<le> EndDate sub"
    and "t1 < endOfDay t1"
  shows "EnforcePaywall \<lparr>cache = c, subscriptionSvc = f\<rparr> t1 (Inr req) =
           (\<lparr>cache = c
                (rate_limit_key (enforce_UserID req) (Action req) \<mapsto>
                   \<lparr>val = ''1'', expiry = Some (t1 + Minute)\<rparr>,
                 usage_key (enforce_UserID req) (Action req) \<mapsto>
                   \<lparr>val = ''1'', expiry = Some (usage_expiry t1)\<rparr>),
             subscriptionSvc = f\<rparr>,
            allowed_response (EndDate sub) 0)"
proof -
  let ?s = "\<lparr>cache = c, subscriptionSvc = f\<rparr>"
  let ?u = "enforce_UserID req" and ?a = "Action req"
  have rl: "checkRateLimit (cache ?s) t1 ?u ?a =
      (c(rate_limit_key ?u ?a \<mapsto> \<lparr>val = ''1'', expiry = Some (t1 + Minute)\<rparr>), True)"
    using checkRateLimit_absent [OF assms(1)] by simp
  have cnt: "counter (cache ?s) t1 (usage_key ?u ?a) = Some 0"
    using assms(2) by (simp add: counter_absent)
  have sub: "subscriptionSvc ?s t1 ?u = Inr sub"
    using assms(3) by simp
  show ?thesis
    using EnforcePaywall_allowed [OF rl sub assms(4,5) cnt] assms(6) by (simp add: Itoa_1)
qed

lemma upt_10_shift:
  "g 0 # map (\<lambda>i. g (1 + int i)) [0..<9] = map (\<lambda>i. g (int i)) [0..<10]"
proof -
  have "map (\<lambda>i. g (int i)) [0..<Suc 9] = g (int 0) # map (\<lambda>i. g (int (Suc i))) [0..<9]"
    by (rule map_upt_Suc)
  then show ?thesis
    by (simp add: ac_simps del: upt_Suc)
qed

text \<open>
  Claim C1, amended: for a subject with an active, unexpired subscription and no rate-limit
  or usage counter, the first ten \<open>EnforcePaywall\<close> calls for one action within one rate-limit
  window (and on one calendar day, no later than 23:59:58) return 200 with \<open>allowed = true\<close>
  and the usage snapshot read before the increment: \<open>current = 0, 1, 2, ...\<close> and
  \<open>remaining = 100, 99, 98, ...\<close>; the eleventh call within the window is refused with 429
  \<open>Rate limit exceeded\<close>, whatever the usage.
\<close>

theorem C1_usage_snapshots:
  assumes fresh: "live (cache s) t1 (rate_limit_key (enforce_UserID req) (Action req)) = None"
      "live (cache s) t1 (usage_key (enforce_UserID req) (Action req)) = None"
    and calls: "length ts = 9"
    and window: "\<forall>t \<in> set ts. t < t1 + Minute" "t11 < t1 + Minute"
    and day: "\<forall>t \<in> set (t1 # ts). t + Second \<le> endOfDay t1 \<and> endOfDay t = endOfDay t1"
    and sub: "\<forall>t \<in> set (t1 # ts). subscriptionSvc s t (enforce_UserID req) = Inr sub \<and> t \<le> EndDate sub"
      "Status sub = ''active''"
  shows "fst (enforce_run s (map (\<lambda>t. (t, req)) (t1 # ts @ [t11]))) =
           map (\<lambda>i. allowed_response (EndDate sub) (int i)) [0..<10] @ [rate_limited_response]"
proof -
  let ?u = "enforce_UserID req" and ?a = "Action req"
  let ?rk = "rate_limit_key ?u ?a" and ?uk = "usage_key ?u ?a"
  define c where "c = cache s"
  define f where "f = subscriptionSvc s"
  have s: "s = \<lparr>cache = c, subscriptionSvc = f\<rparr>"
    by (simp add: c_def f_def)
  let ?c1 = "c(?rk \<mapsto> \<lparr>val = ''1'', expiry = Some (t1 + Minute)\<rparr>,
               ?uk \<mapsto> \<lparr>val = ''1'', expiry = Some (usage_expiry t1)\<rparr>)"
  have t1: "t1 < endOfDay t1"
    using day Second_pos by simp
  have first: "EnforcePaywall \<lparr>cache = c, subscriptionSvc = f\<rparr> t1 (Inr req) =
      (\<lparr>cache = ?c1, subscriptionSvc = f\<rparr>, allowed_response (EndDate sub) 0)"
    using fresh sub t1 by (intro EnforcePaywall_first) (simp_all add: c_def f_def)
  have "\<exists>X'. endOfDay t1 - Second < X' \<and>
      enforce_run \<lparr>cache = ?c1, subscriptionSvc = f\<rparr> (map (\<lambda>t. (t, req)) ts) =
      (map (\<lambda>i. allowed_response (EndDate sub) (1 + int i)) [0..<length ts],
       \<lparr>cache = ?c1(?rk \<mapsto> \<lparr>val = Itoa (1 + int (length ts)), expiry = Some (t1 + Minute)\<rparr>,
                   ?uk \<mapsto> \<lparr>val = Itoa (1 + int (length ts)), expiry = Some X'\<rparr>),
        subscriptionSvc = f\<rparr>)"
    using calls window(1) day sub usage_expiry_bounds(2) [OF t1]
    by (intro enforce_run_window [where X = "usage_expiry t1"]) (simp_all add: Itoa_1 f_def)
  then obtain X' where middle:
      "enforce_run \<lparr>cache = ?c1, subscriptionSvc = f\<rparr> (map (\<lambda>t. (t, req)) ts) =
      (map (\<lambda>i. allowed_response (EndDate sub) (1 + int i)) [0..<length ts],
       \<lparr>cache = ?c1(?rk \<mapsto> \<lparr>val = Itoa (1 + int (length ts)), expiry = Some (t1 + Minute)\<rparr>,
                   ?uk \<mapsto> \<lparr>val = Itoa (1 + int (length ts)), expiry = Some X'\<rparr>),
        subscriptionSvc = f\<rparr>)"
    by blast
  let ?c10 = "?c1(?rk \<mapsto> \<lparr>val = Itoa (1 + int (length ts)), expiry = Some (t1 + Minute)\<rparr>,
                  ?uk \<mapsto> \<lparr>val = Itoa (1 + int (length ts)), expiry = Some X'\<rparr>)"
  have lv: "live ?c10 t11 ?rk =
      Some \<lparr>val = Itoa (1 + int (length ts)), expiry = Some (t1 + Minute)\<rparr>"
    using window(2) by (simp add: live_def)
  have "checkRateLimit ?c10 t11 ?u ?a = (?c10, False)"
    by (rule checkRateLimit_full [OF lv, of 10]) (simp_all add: calls Atoi_Itoa)
  then have last: "EnforcePaywall \<lparr>cache = ?c10, subscriptionSvc = f\<rparr> t11 (Inr req) =
      (\<lparr>cache = ?c10, subscriptionSvc = f\<rparr>, rate_limited_response)"
    using EnforcePaywall_rate_limited [of "\<lparr>cache = ?c10, subscriptionSvc = f\<rparr>" t11 req ?c10]
    by simp
  have "enforce_run \<lparr>cache = c, subscriptionSvc = f\<rparr> (map (\<lambda>t. (t, req)) (t1 # ts @ [t11])) =
      (allowed_response (EndDate sub) 0 #
         map (\<lambda>i. allowed_response (EndDate sub) (1 + int i)) [0..<length ts] @
         [rate_limited_response],
       \<lparr>cache = ?c10, subscriptionSvc = f\<rparr>)"
    by (simp only: list.map map_append enforce_run.simps enforce_run_append first middle last
        prod.case append_Cons append_Nil)
  then show ?thesis
    unfolding s calls
    using upt_10_shift [of "allowed_response (EndDate sub)"] by simp
qed

lemma demo_lookup:
  "t < 10 * Minute \<Longrightarrow> GetActiveSubscriptionByUserID (Some [demo_sub]) t ''u1'' = Inr demo_sub"
  by (simp add: GetActiveSubscriptionByUserID_def demo_sub_def newest_def)


text \<open>
  Claim C1, as stated, fails at the first call: for subject \<open>u1\<close> with an active
  subscription and an empty cache, the first \<open>EnforcePaywall\<close> call answers with the usage
  snapshot \<open>current = 0\<close>, \<open>remaining = 100\<close>, not \<open>1\<close> and \<open>99\<close>.
\<close>

theorem C1_first_snapshot_counterexample:
  "snd (EnforcePaywall demo_service 0 (Inr demo_req)) =
     \<lparr>code = StatusOK,
      body = EnforceBody
        \<lparr>Allowed = True, Reason = [], ExpiresAt = 10 * Minute,
         Usage = \<lparr>Current = 0, Limit = 100, Remaining = 100\<rparr>\<rparr>\<rparr>"
proof -
  have "EnforcePaywall \<lparr>cache = Map.empty,
          subscriptionSvc = GetActiveSubscriptionByUserID (Some [demo_sub])\<rparr> 0 (Inr demo_req) =
      (\<lparr>cache = Map.empty
           (rate_limit_key (enforce_UserID demo_req) (Action demo_req) \<mapsto>
              \<lparr>val = ''1'', expiry = Some (0 + Minute)\<rparr>,
            usage_key (enforce_UserID demo_req) (Action demo_req) \<mapsto>
              \<lparr>val = ''1'', expiry = Some (usage_expiry 0)\<rparr>),
        subscriptionSvc = GetActiveSubscriptionByUserID (Some [demo_sub])\<rparr>,
       allowed_response (EndDate demo_sub) 0)"
    by (rule EnforcePaywall_first)
       (simp_all add: live_def demo_req_def demo_lookup Minute_def Second_def endOfDay_def,
        simp_all add: demo_sub_def Minute_def Second_def)
  then show ?thesis
    by (simp add: demo_service_def allowed_response_def demo_sub_def)
qed

theorem C1_usage_snapshots_witness:
  "live (cache demo_service) 0 (rate_limit_key ''u1'' ''view'') = None \<and>
   live (cache demo_service) 0 (usage_key ''u1'' ''view'') = None \<and>
   take 5 (fst (enforce_run demo_service
                  (map (\<lambda>t. (t, demo_req)) (0 # nine_more @ [10 * Second])))) =
     [allowed_response (10 * Minute) 0, allowed_response (10 * Minute) 1,
      allowed_response (10 * Minute) 2, allowed_response (10 * Minute) 3,
      allowed_response (10 * Minute) 4] \<and>
   fst (enforce_run demo_service
          (map (\<lambda>t. (t, demo_req)) (0 # nine_more @ [10 * Second]))) ! 10 =
     rate_limited_response"
proof -
  have fresh: "live (cache demo_service) 0
        (rate_limit_key (enforce_UserID demo_req) (Action demo_req)) = None"
    "live (cache demo_service) 0 (usage_key (enforce_UserID demo_req) (Action demo_req)) = None"
    by (simp_all add: live_def demo_service_def)
  have len: "length nine_more = 9"
    by (simp add: nine_more_def)
  have window: "\<forall>t \<in> set nine_more. t < 0 + Minute" "10 * Second < 0 + Minute"
    by (simp_all add: nine_more_def Minute_def Second_def)
  have day: "\<forall>t \<in> set (0 # nine_more). t + Second \<le> endOfDay 0 \<and> endOfDay t = endOfDay 0"
    by (simp add: nine_more_def endOfDay_def Day_def Second_def)
  have sub: "\<forall>t \<in> set (0 # nine_more).
      subscriptionSvc demo_service t (enforce_UserID demo_req) = Inr demo_sub \<and> t \<le> EndDate demo_sub"
    by (simp add: nine_more_def demo_service_def demo_req_def demo_lookup Minute_def Second_def)
       (simp add: demo_sub_def Minute_def Second_def)
  have active: "Status demo_sub = ''active''"
    by (simp add: demo_sub_def)
  have shape: "map (\<lambda>i. allowed_response (EndDate demo_sub) (int i)) [0..<10] =
      [allowed_response (10 * Minute) 0, allowed_response (10 * Minute) 1,
       allowed_response (10 * Minute) 2, allowed_response (10 * Minute) 3,
       allowed_response (10 * Minute) 4, allowed_response (10 * Minute) 5,
       allowed_response (10 * Minute) 6, allowed_response (10 * Minute) 7,
       allowed_response (10 * Minute) 8, allowed_response (10 * Minute) 9]"
  proof -
    have "[0..<10] = [0, 1, 2, 3, 4, 5, 6, 7, 8, 9 :: nat]"
      by (simp add: upt_rec)
    then show ?thesis
      by (simp add: demo_sub_def)
  qed
  show ?thesis
    using C1_usage_snapshots [OF fresh len window day sub active] fresh
    by (simp add: shape demo_req_def)
qed


section \<open>The usage counter and its expiry\<close>

lemma incrementUsage_other_key:
  "k \<noteq> usage_key u a \<Longrightarrow> fst (incrementUsage c now u a) k = c k"
  by (auto simp: incrementUsage_def cache_Incr_def cache_Expire_def live_def Let_def
      split: option.splits sum.splits if_splits prod.splits)

lemma usage_expiry_midnight: "usage_expiry 0 = 86399 * Second"
  using usage_expiry_whole [of 0] by simp

text \<open>
  Claim C3, as stated, fails on a key that exists already: a usage counter holding \<open>3\<close>
  without expiry is incremented to \<open>4\<close> and gets the expiry 23:59:59 of the day, although
  this call did not create it.
\<close>

theorem C3_expiry_reset_counterexample:
  "live persistent_usage 0 (usage_key ''u1'' ''view'') = Some \<lparr>val = ''3'', expiry = None\<rparr> \<and>
   incrementUsage persistent_usage 0 ''u1'' ''view'' =
     ([usage_key ''u1'' ''view'' \<mapsto> \<lparr>val = ''4'', expiry = Some (86399 * Second)\<rparr>], None)"
proof -
  have r3: "redis_int ''3'' = Some 3"
    by (simp add: redis_int_def Atoi_def Let_def is_digit_def digits_val_def digit_val_def
        Itoa_def nat_digits.simps char_of_eq_iff)
  have i4: "Itoa (3 + 1) = ''4''"
    by (simp add: Itoa_def nat_digits.simps char_of_eq_iff)
  have lv: "live persistent_usage 0 (usage_key ''u1'' ''view'') = Some \<lparr>val = ''3'', expiry = None\<rparr>"
    by (simp add: live_def persistent_usage_def)
  have before: "(0 :: int) < endOfDay 0"
    by (simp add: endOfDay_def Second_def)
  have "counter persistent_usage 0 (usage_key ''u1'' ''view'') = Some 3"
    using lv by (simp add: counter_def r3)
  then have "incrementUsage persistent_usage 0 ''u1'' ''view'' =
      (if 0 < endOfDay 0
       then persistent_usage(usage_key ''u1'' ''view'' \<mapsto>
              \<lparr>val = Itoa (3 + 1), expiry = Some (usage_expiry 0)\<rparr>)
       else persistent_usage(usage_key ''u1'' ''view'' := None), None)"
    by (rule incrementUsage_counter) simp
  then have "incrementUsage persistent_usage 0 ''u1'' ''view'' =
      (persistent_usage(usage_key ''u1'' ''view'' \<mapsto>
              \<lparr>val = ''4'', expiry = Some (86399 * Second)\<rparr>), None)"
    by (simp only: before if_True i4 usage_expiry_midnight)
  moreover have "persistent_usage(usage_key ''u1'' ''view'' \<mapsto>
              \<lparr>val = ''4'', expiry = Some (86399 * Second)\<rparr>) =
      [usage_key ''u1'' ''view'' \<mapsto> \<lparr>val = ''4'', expiry = Some (86399 * Second)\<rparr>]"
    by (rule ext) (simp add: persistent_usage_def)
  ultimately show ?thesis
    using lv by (simp only: simp_thms)
qed

text \<open>
  Claim C3, amended: every \<open>incrementUsage\<close> call on a counter that is absent or holds an
  integer below the largest int64 increments it by one and then sets the expiry of the key,
  whether the call created the key or not and whatever expiry the key had. The time to live
  is the time left until 23:59:59 of the current day in whole seconds (a positive remainder
  below one second counts as one second, a longer one is truncated), so a call made before
  23:59:59 leaves the counter at \<open>n + 1\<close> with an expiry after the call and less than one
  second away from 23:59:59; a call made from 23:59:59 on deletes the key. No other key
  changes, and no error is returned.
\<close>

theorem C3_increment_sets_expiry:
  assumes "counter c now (usage_key u a) = Some n" and "n < 2 ^ 63 - 1"
  shows "fst (incrementUsage c now u a) (usage_key u a) =
           (if now < endOfDay now
            then Some \<lparr>val = Itoa (n + 1), expiry = Some (usage_expiry now)\<rparr> else None) \<and>
         snd (incrementUsage c now u a) = None \<and>
         (\<forall>k. k \<noteq> usage_key u a \<longrightarrow> fst (incrementUsage c now u a) k = c k) \<and>
         (now < endOfDay now \<longrightarrow>
            now < usage_expiry now \<and> endOfDay now - Second < usage_expiry now \<and>
            usage_expiry now < endOfDay now + Second \<and>
            counter (fst (incrementUsage c now u a)) now (usage_key u a) = Some (n + 1))"
proof -
  have res: "incrementUsage c now u a =
      (if now < endOfDay now
       then c(usage_key u a \<mapsto> \<lparr>val = Itoa (n + 1), expiry = Some (usage_expiry now)\<rparr>)
       else c(usage_key u a := None), None)"
    by (rule incrementUsage_counter [OF assms])
  have rng: "- (2 ^ 63) \<le> n + 1" "n + 1 < 2 ^ 63"
    using counter_range [OF assms(1)] assms(2) by simp_all
  have key: "fst (incrementUsage c now u a) (usage_key u a) =
      (if now < endOfDay now
       then Some \<lparr>val = Itoa (n + 1), expiry = Some (usage_expiry now)\<rparr> else None)"
    by (simp add: res)
  have err: "snd (incrementUsage c now u a) = None"
    by (simp add: res)
  have early: "now < endOfDay now \<longrightarrow>
      now < usage_expiry now \<and> endOfDay now - Second < usage_expiry now \<and>
      usage_expiry now < endOfDay now + Second \<and>
      counter (fst (incrementUsage c now u a)) now (usage_key u a) = Some (n + 1)"
  proof
    assume b: "now < endOfDay now"
    have "counter (c(usage_key u a \<mapsto> \<lparr>val = Itoa (n + 1), expiry = Some (usage_expiry now)\<rparr>))
        now (usage_key u a) = Some (n + 1)"
      using rng usage_expiry_bounds(1) [OF b]
      by (intro counter_entry [where E = "usage_expiry now"]) simp_all
    then have "counter (fst (incrementUsage c now u a)) now (usage_key u a) = Some (n + 1)"
      using b by (simp add: res)
    then show "now < usage_expiry now \<and> endOfDay now - Second < usage_expiry now \<and>
      usage_expiry now < endOfDay now + Second \<and>
      counter (fst (incrementUsage c now u a)) now (usage_key u a) = Some (n + 1)"
      using usage_expiry_bounds [OF b] by simp
  qed
  show ?thesis
    using key err early incrementUsage_other_key [of _ u a c now] by blast
qed

theorem C3_increment_sets_expiry_witness:
  "counter persistent_usage 0 (usage_key ''u1'' ''view'') = Some 3 \<and>
   fst (incrementUsage persistent_usage 0 ''u1'' ''view'') (usage_key ''u1'' ''view'') =
     Some \<lparr>val = Itoa 4, expiry = Some (usage_expiry 0)\<rparr> \<and>
   usage_expiry 0 = 86399 * Second \<and>
   counter (fst (incrementUsage persistent_usage 0 ''u1'' ''view'')) 0 (usage_key ''u1'' ''view'') =
     Some 4"
proof -
  have r3: "redis_int ''3'' = Some 3"
    by (simp add: redis_int_def Atoi_def Let_def is_digit_def digits_val_def digit_val_def
        Itoa_def nat_digits.simps char_of_eq_iff)
  have cnt: "counter persistent_usage 0 (usage_key ''u1'' ''view'') = Some 3"
    by (simp add: counter_def live_def persistent_usage_def r3)
  have bound: "(3 :: int) < 2 ^ 63 - 1"
    by simp
  have before: "(0 :: int) < endOfDay 0"
    by (simp add: endOfDay_def Second_def)
  show ?thesis
    using C3_increment_sets_expiry [OF cnt bound] cnt before usage_expiry_midnight by simp
qed


section \<open>Denials, lookup failures and webhook events\<close>

lemma checkSubscriptionAccess_no_error:
  "snd (snd (snd (checkSubscriptionAccess s now u p))) = None"
  by (simp add: checkSubscriptionAccess_def split: sum.splits)

lemma checkUsageLimits_no_error: "snd (checkUsageLimits c now u a) = None"
  by (simp add: checkUsageLimits_def Let_def split: sum.splits option.splits)

lemma EnforcePaywall_cases:
  "snd (EnforcePaywall s now (Inr req)) =
     (if \<not> snd (checkRateLimit (cache s) now (enforce_UserID req) (Action req))
      then rate_limited_response
      else if \<not> fst (checkSubscriptionAccess s now (enforce_UserID req) [])
      then \<lparr>code = StatusForbidden,
            body = ErrorReasonBody ''Access denied''
                     (fst (snd (checkSubscriptionAccess s now (enforce_UserID req) [])))\<rparr>
      else \<lparr>code = StatusOK,
            body = EnforceBody
              \<lparr>Allowed = True, Reason = [],
               ExpiresAt = fst (snd (snd (checkSubscriptionAccess s now (enforce_UserID req) []))),
               Usage = fst (checkUsageLimits
                         (fst (checkRateLimit (cache s) now (enforce_UserID req) (Action req)))
                         now (enforce_UserID req) (Action req))\<rparr>\<rparr>)"
proof -
  obtain c1 ok where rl: "checkRateLimit (cache s) now (enforce_UserID req) (Action req) = (c1, ok)"
    by (cases "checkRateLimit (cache s) now (enforce_UserID req) (Action req)")
  obtain h r e where acc: "checkSubscriptionAccess s now (enforce_UserID req) [] = (h, r, e, None)"
    using checkSubscriptionAccess_no_error [of s now "enforce_UserID req" "[]"]
    by (cases "checkSubscriptionAccess s now (enforce_UserID req) []") auto
  obtain us where chk: "checkUsageLimits c1 now (enforce_UserID req) (Action req) = (us, None)"
    using checkUsageLimits_no_error [of c1 now "enforce_UserID req" "Action req"]
    by (cases "checkUsageLimits c1 now (enforce_UserID req) (Action req)") auto
  show ?thesis
    by (cases ok)
       (simp_all add: EnforcePaywall_def rl acc chk rate_limited_response_def split: prod.splits)
qed

text \<open>
  Claim C4, as stated, fails for a subject without subscription: the answer is the status 403
  with an error body, not a successful response with \<open>allowed = false\<close>.
\<close>

theorem C4_denial_status_counterexample:
  "snd (EnforcePaywall no_sub_service 0 (Inr demo_req)) =
     \<lparr>code = 403, body = ErrorReasonBody ''Access denied'' ''No active subscription found''\<rparr>"
  by (simp add: EnforcePaywall_cases no_sub_service_def demo_req_def checkRateLimit_def
      cache_Get_def live_def checkSubscriptionAccess_def GetActiveSubscriptionByUserID_def
      StatusForbidden_def)

text \<open>
  Claim C4, amended: an \<open>EnforcePaywall\<close> call refused by the rate limiter answers 429 with
  the error \<open>Rate limit exceeded\<close>; a call that passes the rate limiter and is denied by the
  subscription check answers 403 with the error \<open>Access denied\<close> and the reason. No call
  with a bound request answers 500, the status is 200 exactly when both checks pass, and a
  response structure, when there is one, always has \<open>allowed = true\<close>.
\<close>

theorem C4_denials_are_client_errors:
  "(\<not> snd (checkRateLimit (cache s) now (enforce_UserID req) (Action req)) \<longrightarrow>
      snd (EnforcePaywall s now (Inr req)) =
        \<lparr>code = StatusTooManyRequests, body = ErrorBody ''Rate limit exceeded''\<rparr>) \<and>
   (snd (checkRateLimit (cache s) now (enforce_UserID req) (Action req)) \<and>
    \<not> fst (checkSubscriptionAccess s now (enforce_UserID req) []) \<longrightarrow>
      snd (EnforcePaywall s now (Inr req)) =
        \<lparr>code = StatusForbidden,
         body = ErrorReasonBody ''Access denied''
                  (fst (snd (checkSubscriptionAccess s now (enforce_UserID req) [])))\<rparr>) \<and>
   code (snd (EnforcePaywall s now (Inr req))) \<noteq> StatusInternalServerError \<and>
   (code (snd (EnforcePaywall s now (Inr req))) = StatusOK \<longleftrightarrow>
      snd (checkRateLimit (cache s) now (enforce_UserID req) (Action req)) \<and>
      fst (checkSubscriptionAccess s now (enforce_UserID req) [])) \<and>
   (\<forall>r. body (snd (EnforcePaywall s now (Inr req))) = EnforceBody r \<longrightarrow> Allowed r)"
  by (simp add: EnforcePaywall_cases rate_limited_response_def StatusOK_def StatusForbidden_def
      StatusTooManyRequests_def StatusInternalServerError_def)

theorem C4_denials_are_client_errors_witness:
  "\<not> snd (checkRateLimit (cache full_window_service) (30 * Second) ''u1'' ''view'') \<and>
   snd (EnforcePaywall full_window_service (30 * Second) (Inr demo_req)) =
     \<lparr>code = 429, body = ErrorBody ''Rate limit exceeded''\<rparr> \<and>
   snd (checkRateLimit (cache no_sub_service) 0 ''u1'' ''view'') \<and>
   \<not> fst (checkSubscriptionAccess no_sub_service 0 ''u1'' []) \<and>
   snd (EnforcePaywall no_sub_service 0 (Inr demo_req)) =
     \<lparr>code = 403, body = ErrorReasonBody ''Access denied'' ''No active subscription found''\<rparr>"
proof -
  have a10: "Atoi ''10'' = Some 10"
    by (simp add: Atoi_def Let_def is_digit_def digits_val_def digit_val_def)
  have full: "\<not> snd (checkRateLimit (cache full_window_service) (30 * Second)
      (enforce_UserID demo_req) (Action demo_req))"
    by (simp add: checkRateLimit_def cache_Get_def live_def full_window_service_def demo_req_def
        a10 Minute_def Second_def)
  have open_window: "snd (checkRateLimit (cache no_sub_service) 0
      (enforce_UserID demo_req) (Action demo_req))"
    by (simp add: checkRateLimit_def cache_Get_def live_def no_sub_service_def)
  have denied: "checkSubscriptionAccess no_sub_service 0 (enforce_UserID demo_req) [] =
      (False, ''No active subscription found'', zeroTime, None)"
    by (simp add: checkSubscriptionAccess_def no_sub_service_def GetActiveSubscriptionByUserID_def)
  show ?thesis
    using C4_denials_are_client_errors [of full_window_service "30 * Second" demo_req]
      C4_denials_are_client_errors [of no_sub_service 0 demo_req]
      full open_window denied
    by (simp add: demo_req_def StatusForbidden_def StatusTooManyRequests_def)
qed

text \<open>
  Claim C9: \<open>checkSubscriptionAccess\<close> never returns an error; whenever the lookup fails,
  for whatever reason, it returns the denial \<open>No active subscription found\<close> with a nil
  error. So \<open>CheckAccess\<close> never answers 500, and with the lookup failing (and nothing cached)
  it answers 200 with \<open>has_access = false\<close> and that reason.
\<close>

theorem C9_lookup_failure_is_denial:
  "snd (snd (snd (checkSubscriptionAccess s now u p))) = None \<and>
   (\<forall>e. subscriptionSvc s now u = Inl e \<longrightarrow>
      checkSubscriptionAccess s now u p = (False, ''No active subscription found'', zeroTime, None)) \<and>
   code (snd (CheckAccess enc dec s now bound)) \<noteq> StatusInternalServerError \<and>
   (\<forall>e req. bound = Inr req \<and> getCachedAccess dec (cache s) now (access_key req) = None \<and>
      subscriptionSvc s now (check_UserID req) = Inl e \<longrightarrow>
      snd (CheckAccess enc dec s now bound) =
        \<lparr>code = StatusOK,
         body = CheckBody \<lparr>HasAccess = False, check_Reason = ''No active subscription found'',
                           check_ExpiresAt = zeroTime\<rparr>\<rparr>)"
proof -
  have err: "\<And>u p. snd (snd (snd (checkSubscriptionAccess s now u p))) = None"
    by (rule checkSubscriptionAccess_no_error)
  have fail: "\<And>e u p. subscriptionSvc s now u = Inl e \<Longrightarrow>
      checkSubscriptionAccess s now u p = (False, ''No active subscription found'', zeroTime, None)"
    by (simp add: checkSubscriptionAccess_def)
  have no500: "code (snd (CheckAccess enc dec s now bound)) \<noteq> StatusInternalServerError"
  proof (cases bound)
    case (Inl msg)
    then show ?thesis
      by (simp add: CheckAccess_def StatusBadRequest_def StatusInternalServerError_def)
  next
    case (Inr req)
    obtain h r e where acc:
      "checkSubscriptionAccess s now (check_UserID req) (check_PlanID req) = (h, r, e, None)"
      using err [of "check_UserID req" "check_PlanID req"]
      by (cases "checkSubscriptionAccess s now (check_UserID req) (check_PlanID req)") auto
    show ?thesis
      using Inr
      by (simp add: CheckAccess_def acc Let_def StatusOK_def StatusInternalServerError_def
          split: option.splits)
  qed
  have outage: "\<And>e req. bound = Inr req \<Longrightarrow>
      getCachedAccess dec (cache s) now (access_key req) = None \<Longrightarrow>
      subscriptionSvc s now (check_UserID req) = Inl e \<Longrightarrow>
      snd (CheckAccess enc dec s now bound) =
        \<lparr>code = StatusOK,
         body = CheckBody \<lparr>HasAccess = False, check_Reason = ''No active subscription found'',
                           check_ExpiresAt = zeroTime\<rparr>\<rparr>"
    by (simp add: CheckAccess_def fail Let_def)
  show ?thesis
    using err fail no500 outage by blast
qed

theorem C9_lookup_failure_is_denial_witness:
  "subscriptionSvc outage_service 0 ''u1'' = Inl ErrDatabase \<and>
   checkSubscriptionAccess outage_service 0 ''u1'' ''p1'' =
     (False, ''No active subscription found'', zeroTime, None) \<and>
   snd (CheckAccess (\<lambda>r. None) (\<lambda>d. None) outage_service 0 (Inr demo_check)) =
     \<lparr>code = StatusOK,
      body = CheckBody \<lparr>HasAccess = False, check_Reason = ''No active subscription found'',
                        check_ExpiresAt = zeroTime\<rparr>\<rparr>"
proof -
  have down: "subscriptionSvc outage_service 0 ''u1'' = Inl ErrDatabase"
    by (simp add: outage_service_def GetActiveSubscriptionByUserID_def)
  have miss: "getCachedAccess (\<lambda>d. None) (cache outage_service) 0 (access_key demo_check) = None"
    by (simp add: getCachedAccess_def split: sum.splits)
  have user: "check_UserID demo_check = ''u1''"
    by (simp add: demo_check_def)
  show ?thesis
    using C9_lookup_failure_is_denial
      [of outage_service 0 "''u1''" "''p1''" "\<lambda>r. None" "\<lambda>d. None" "Inr demo_check"]
      down miss user
    by simp
qed

lemma markWebhookProcessed_row:
  "db eventID = Some r \<Longrightarrow>
   fst (markWebhookProcessed db now eventID) =
     db(eventID \<mapsto> r\<lparr>processed := True, processed_at := Some now\<rparr>)"
  by (simp add: markWebhookProcessed_def)

text \<open>
  Claim C8: for a stored webhook event whose type is none of \<open>payment_intent.succeeded\<close>,
  \<open>payment_intent.payment_failed\<close> and \<open>invoice.payment_succeeded\<close>, \<open>processWebhookEvent\<close>
  runs no reaction (it writes the log line for an unhandled type) and sets \<open>processed\<close> to true
  and \<open>processed_at\<close> to the current time in the row of the event; the other columns of that
  row and all other rows stay as they were.
\<close>

theorem C8_unrecognized_event_only_marked:
  assumes "\<not> recognized (Type event)" and "db (ID event) = Some r"
  shows "fst (processWebhookEvent db now event) (ID event) =
           Some (r\<lparr>processed := True, processed_at := Some now\<rparr>) \<and>
         (\<forall>k. k \<noteq> ID event \<longrightarrow> fst (processWebhookEvent db now event) k = db k) \<and>
         snd (processWebhookEvent db now event) = [''Unhandled webhook event type: '' @ Type event]"
proof -
  have "processWebhookEvent db now event =
      (fst (markWebhookProcessed db now (ID event)),
       [''Unhandled webhook event type: '' @ Type event])"
    using assms(1) by (simp add: processWebhookEvent_def recognized_def)
  then show ?thesis
    using markWebhookProcessed_row [of db "ID event" r now] assms(2) by simp
qed

theorem C8_unrecognized_event_only_marked_witness:
  "\<not> recognized (Type unknown_event) \<and>
   storeWebhookEvent Map.empty 5 unknown_event =
     ([''evt_1'' \<mapsto>
         \<lparr>event_type = ''customer.created'', source = ''stripe'', payload = unknown_event,
          processed = False, processed_at = None, created_at = 5\<rparr>], None) \<and>
   fst (processWebhookEvent (fst (storeWebhookEvent Map.empty 5 unknown_event)) 7 unknown_event)
       ''evt_1'' =
     Some \<lparr>event_type = ''customer.created'', source = ''stripe'', payload = unknown_event,
           processed = True, processed_at = Some 7, created_at = 5\<rparr> \<and>
   snd (processWebhookEvent (fst (storeWebhookEvent Map.empty 5 unknown_event)) 7 unknown_event) =
     [''Unhandled webhook event type: customer.created'']"
proof -
  have ty: "\<not> recognized (Type unknown_event)"
    by (simp add: recognized_def unknown_event_def)
  have stored: "storeWebhookEvent Map.empty 5 unknown_event =
      ([''evt_1'' \<mapsto>
          \<lparr>event_type = ''customer.created'', source = ''stripe'', payload = unknown_event,
           processed = False, processed_at = None, created_at = 5\<rparr>], None)"
    by (simp add: storeWebhookEvent_def unknown_event_def)
  have row: "fst (storeWebhookEvent Map.empty 5 unknown_event) (ID unknown_event) =
      Some \<lparr>event_type = ''customer.created'', source = ''stripe'', payload = unknown_event,
            processed = False, processed_at = None, created_at = 5\<rparr>"
    by (simp add: stored) (simp add: unknown_event_def)
  have idty: "ID unknown_event = ''evt_1''" "Type unknown_event = ''customer.created''"
    by (simp_all add: unknown_event_def)
  show ?thesis
    using C8_unrecognized_event_only_marked
      [where event = unknown_event and db = "fst (storeWebhookEvent Map.empty 5 unknown_event)"
         and now = 7
         and r = "\<lparr>event_type = ''customer.created'', source = ''stripe'',
                   payload = unknown_event, processed = False, processed_at = None,
                   created_at = 5\<rparr>"]
      ty row stored
    by (simp add: idty)
qed


section \<open>Usage beyond the quota\<close>

lemma long_lookup:
  "t < Day \<Longrightarrow> GetActiveSubscriptionByUserID (Some [long_sub]) t ''u1'' = Inr long_sub"
  by (simp add: GetActiveSubscriptionByUserID_def long_sub_def newest_def)











section \<open>Calls in the last seconds of the day\<close>

text \<open>
  The usage counter lives a whole number of seconds: a call half a second after midnight
  sets its expiry to 23:59:58.5, a call at 23:59:58.5 sets it to 23:59:59.5.
\<close>

lemma usage_expiry_examples:
  "usage_expiry 500000000 = 86398 * Second + 500000000"
  "usage_expiry (86398 * Second + 500000000) = 86399 * Second + 500000000"
  by (simp_all add: usage_expiry_def endOfDay_def Sub_def formatSec_def Day_def Second_def
      maxDuration_def minDuration_def)

text \<open>
  So two calls at 23:59:57.5 and 23:59:58.7 both read a count of 0: the counter that the first
  call wrote is gone when the second arrives.
\<close>

lemma late_calls_lose_the_count:
  "fst (enforce_run long_service
          [(86397 * Second + 500000000, demo_req), (86398 * Second + 700000000, demo_req)]) =
     [allowed_response Day 0, allowed_response Day 0]"
proof -
  let ?f = "GetActiveSubscriptionByUserID (Some [long_sub])"
  let ?t1 = "86397 * Second + 500000000" and ?t2 = "86398 * Second + 700000000"
  let ?rk = "rate_limit_key (enforce_UserID demo_req) (Action demo_req)"
  let ?uk = "usage_key (enforce_UserID demo_req) (Action demo_req)"
  let ?c1 = "Map.empty(?rk \<mapsto> \<lparr>val = ''1'', expiry = Some (?t1 + Minute)\<rparr>,
                       ?uk \<mapsto> \<lparr>val = ''1'', expiry = Some (usage_expiry ?t1)\<rparr>)"
  let ?s1 = "\<lparr>cache = ?c1, subscriptionSvc = ?f\<rparr>"
  have e1: "usage_expiry ?t1 = 86398 * Second + 500000000"
    by (simp add: usage_expiry_def endOfDay_def Sub_def formatSec_def Day_def Second_def
        maxDuration_def minDuration_def)
  have e: "EndDate long_sub = Day"
    by (simp add: long_sub_def)
  have first: "EnforcePaywall \<lparr>cache = Map.empty, subscriptionSvc = ?f\<rparr> ?t1 (Inr demo_req) =
      (?s1, allowed_response (EndDate long_sub) 0)"
    by (rule EnforcePaywall_first)
       (simp_all add: live_def demo_req_def long_lookup Day_def Second_def endOfDay_def,
        simp_all add: long_sub_def Day_def Second_def)
  have lv: "live (cache ?s1) ?t2 ?rk = Some \<lparr>val = Itoa 1, expiry = Some (?t1 + Minute)\<rparr>"
    by (simp add: live_def Itoa_1 Minute_def Second_def)
  have ri: "redis_int (val \<lparr>val = Itoa 1, expiry = Some (?t1 + Minute)\<rparr>) = Some 1"
    by (simp add: redis_int_Itoa)
  have rl: "checkRateLimit (cache ?s1) ?t2 (enforce_UserID demo_req) (Action demo_req) =
      (?c1(?rk \<mapsto> \<lparr>val = Itoa (1 + 1), expiry = Some (?t1 + Minute)\<rparr>), True)"
    using checkRateLimit_below [OF lv ri] by simp
  have gone: "live (cache ?s1) ?t2 ?uk = None"
    using e1 by (simp add: live_def Second_def)
  have cnt: "counter (cache ?s1) ?t2 ?uk = Some 0"
    by (rule counter_absent [OF gone])
  have sub: "subscriptionSvc ?s1 ?t2 (enforce_UserID demo_req) = Inr long_sub"
    by (simp add: long_lookup demo_req_def Day_def Second_def)
  have active: "Status long_sub = ''active''" "?t2 \<le> EndDate long_sub"
    by (simp_all add: long_sub_def Day_def Second_def)
  have second: "snd (EnforcePaywall ?s1 ?t2 (Inr demo_req)) = allowed_response (EndDate long_sub) 0"
    using EnforcePaywall_allowed [OF rl sub active cnt] by simp
  obtain s2 where "EnforcePaywall ?s1 ?t2 (Inr demo_req) = (s2, allowed_response (EndDate long_sub) 0)"
    using second by (cases "EnforcePaywall ?s1 ?t2 (Inr demo_req)") simp
  then show ?thesis
    unfolding long_service_def by (simp only: enforce_run.simps first prod.case fst_conv e)
qed

end
